theory Spec2Isabelle
  imports Complex_Main "HOL-Library.Multiset" "HOL-Library.Word"
begin

section \<open>Data model of \<^verbatim>\<open>src/main.cpp\<close>\<close>

text \<open>
  Modelling decisions, fixed once for the whole development.

  \<^item> A \<^verbatim>\<open>double\<close> is a real number; the one array that holds
    \<^verbatim>\<open>numeric_limits<double>::infinity()\<close> (\<^verbatim>\<open>dist\<close>) has the element type
    \<open>cost\<close>, a real or \<open>Infinity\<close>. Rounding, NaN and overflow to infinity are not
    modelled: edge weights and coordinates are finite reals and arithmetic is exact. The
    statements about the counters, the queue, the trace and termination rest on the
    comparisons of the search alone and hold whatever the sums are. The statement about
    the value of the path cost carries the hypothesis \<open>exact_doubles\<close>, a condition on the
    graph under which the sums of the program are exact as well.
  \<^item> Node indices are natural numbers. \<^verbatim>\<open>operator[]\<close> of \<^verbatim>\<open>std::vector\<close> with an index
    beyond the size is undefined behaviour in C++; the model makes every such access a
    branch that returns the fault \<open>OutOfRange\<close>.
  \<^item> The counters \<^verbatim>\<open>nodesExpanded\<close> and \<^verbatim>\<open>steps\<close> of one search are natural numbers (the
    \<^verbatim>\<open>int\<close> of the source would need more than \<open>2^31\<close> pops in one search to overflow).
    The totals of the hundred runs are 32-bit words, as the \<^verbatim>\<open>int\<close> of the source is:
    twenty-one and a half million pops in each run take them out of its range.
  \<^item> \<^verbatim>\<open>std::priority_queue\<close> is library code. Its operations are a parameter of the
    search (\<open>pq_ops\<close>), constrained only by what the C++ standard promises
    (\<open>pq_spec\<close>): \<^verbatim>\<open>top\<close> is an entry no other entry is ordered before by
    \<^verbatim>\<open>CompareState\<close>; which one among entries of equal \<open>f\<close> is left to the
    implementation.
  \<^item> The clock is outside the program: the duration measured for run \<open>i\<close> is a parameter.
\<close>

datatype fault = OutOfRange

datatype cost = Finite real | Infinity

text \<open>\<^verbatim>\<open>struct State\<close>.\<close>

record State =
  node :: nat
  g :: real
  f :: real

text \<open>\<^verbatim>\<open>CompareState::operator()\<close>: \<open>a\<close> is ordered after \<open>b\<close> when its \<open>f\<close> is larger.\<close>

definition CompareState :: "State \<Rightarrow> State \<Rightarrow> bool" where
  "CompareState a b = (f a > f b)"

text \<open>\<^verbatim>\<open>struct GraphData\<close>.\<close>

record GraphData =
  numNodes :: nat
  adjacencyList :: "(nat \<times> real) list list"
  coordinates :: "(real \<times> real) list"
  startNode :: nat
  goalNode :: nat
  name :: string

text \<open>
  The edge loop of \<^verbatim>\<open>readGraphFromFile\<close> (lines 71 to 77), on the edges already parsed:
  each edge \<open>(u, v, w)\<close> is appended to the list of \<open>u\<close> and then to the list of \<open>v\<close>.
\<close>

fun add_edges :: "(nat \<times> nat \<times> real) list \<Rightarrow> (nat \<times> real) list list
    \<Rightarrow> fault + (nat \<times> real) list list" where
  "add_edges [] adj = Inr adj"
| "add_edges ((u, v, w) # es) adj =
     (if u < length adj then
        (let adj1 = adj[u := adj ! u @ [(v, w)]] in
         if v < length adj1 then add_edges es (adj1[v := adj1 ! v @ [(u, w)]])
         else Inl OutOfRange)
      else Inl OutOfRange)"

text \<open>The Euclidean heuristic, the lambda of lines 115 to 119.\<close>

definition heuristic :: "GraphData \<Rightarrow> nat \<Rightarrow> fault + real" where
  "heuristic G n =
     (let coords = coordinates G; goal = goalNode G in
      if n < length coords \<and> goal < length coords then
        (let dx = fst (coords ! n) - fst (coords ! goal);
             dy = snd (coords ! n) - snd (coords ! goal)
         in Inr (sqrt (dx * dx + dy * dy)))
      else Inl OutOfRange)"

section \<open>The priority queue\<close>

text \<open>
  The operations of \<^verbatim>\<open>priority_queue<State, vector<State>, CompareState>\<close> that the search
  calls: the constructor, \<^verbatim>\<open>empty\<close>, \<^verbatim>\<open>top\<close>, \<^verbatim>\<open>pop\<close> and \<^verbatim>\<open>push\<close>.
\<close>

record 'q pq_ops =
  pq_new :: 'q
  pq_empty :: "'q \<Rightarrow> bool"
  pq_top :: "'q \<Rightarrow> State"
  pq_pop :: "'q \<Rightarrow> 'q"
  pq_push :: "State \<Rightarrow> 'q \<Rightarrow> 'q"

text \<open>
  What the standard promises of them, relative to the multiset of entries \<open>\<alpha> q\<close> a queue
  holds and a representation invariant \<open>rinv\<close>.
\<close>

definition pq_spec :: "'q pq_ops \<Rightarrow> ('q \<Rightarrow> State multiset) \<Rightarrow> ('q \<Rightarrow> bool) \<Rightarrow> bool" where
  "pq_spec ops \<alpha> rinv \<longleftrightarrow>
     rinv (pq_new ops) \<and> \<alpha> (pq_new ops) = {#} \<and>
     (\<forall>q. rinv q \<longrightarrow> (pq_empty ops q \<longleftrightarrow> \<alpha> q = {#})) \<and>
     (\<forall>q x. rinv q \<longrightarrow> rinv (pq_push ops x q) \<and> \<alpha> (pq_push ops x q) = add_mset x (\<alpha> q)) \<and>
     (\<forall>q. rinv q \<and> \<alpha> q \<noteq> {#} \<longrightarrow>
        pq_top ops q \<in># \<alpha> q \<and>
        (\<forall>y. y \<in># \<alpha> q \<longrightarrow> \<not> CompareState (pq_top ops q) y) \<and>
        rinv (pq_pop ops q) \<and>
        \<alpha> (pq_pop ops q) = \<alpha> q - {#pq_top ops q#})"

text \<open>
  One implementation, used to run the search on concrete graphs: a list kept in
  ascending order of \<open>f\<close>.
\<close>

definition list_pq :: "State list pq_ops" where
  "list_pq = \<lparr> pq_new = [], pq_empty = (\<lambda>q. q = []), pq_top = hd, pq_pop = tl,
     pq_push = insort_key f \<rparr>"

section \<open>The search: one pass of the body of the \<^verbatim>\<open>for\<close> loop of \<^verbatim>\<open>runAStar\<close>\<close>

text \<open>
  History of the queue operations of a search, in the order they happen. It is not a
  variable of the program and nothing in the model reads it; claims about "every entry
  ever pushed" or "every removal" are stated on it.
\<close>

datatype event = Push State | Stale State | Expand State

record 'q SearchState =
  open_pq :: 'q
  dist_v :: "cost list"
  closed_v :: "bool list"
  nodesExpanded :: nat
  steps :: nat
  trace :: "event list"

text \<open>The two comparisons of a \<^verbatim>\<open>double\<close> with an entry of \<^verbatim>\<open>dist\<close>.\<close>

fun exceeds :: "real \<Rightarrow> cost \<Rightarrow> bool" where
  "exceeds x (Finite d) = (x > d)"
| "exceeds x Infinity = False"

fun improves :: "real \<Rightarrow> cost \<Rightarrow> bool" where
  "improves x (Finite d) = (x < d)"
| "improves x Infinity = True"

text \<open>Lines 134 to 143.\<close>

definition init_search :: "'q pq_ops \<Rightarrow> GraphData \<Rightarrow> (nat \<Rightarrow> fault + real)
    \<Rightarrow> fault + 'q SearchState" where
  "init_search ops G h =
     (let N = numNodes G; start = startNode G in
      if start < N then
        (case h start of
           Inl e \<Rightarrow> Inl e
         | Inr h0 \<Rightarrow>
             Inr \<lparr> open_pq = pq_push ops \<lparr> node = start, g = 0, f = h0 \<rparr> (pq_new ops),
                   dist_v = (replicate N Infinity)[start := Finite 0],
                   closed_v = replicate N False,
                   nodesExpanded = 0,
                   steps = 0,
                   trace = [Push \<lparr> node = start, g = 0, f = h0 \<rparr>] \<rparr>)
      else Inl OutOfRange)"

text \<open>Lines 168 to 170: the body of the \<^verbatim>\<open>if\<close> in the neighbour loop.\<close>

definition push_nbr :: "'q pq_ops \<Rightarrow> nat \<Rightarrow> real \<Rightarrow> real \<Rightarrow> 'q SearchState \<Rightarrow> 'q SearchState" where
  "push_nbr ops nbr newG newF s =
     s\<lparr> dist_v := (dist_v s)[nbr := Finite newG],
        open_pq := pq_push ops \<lparr> node = nbr, g = newG, f = newF \<rparr> (open_pq s),
        trace := trace s @ [Push \<lparr> node = nbr, g = newG, f = newF \<rparr>] \<rparr>"

text \<open>
  Lines 164 to 172: the neighbour loop, over the adjacency list of the current node;
  \<open>cg\<close> is \<^verbatim>\<open>cur.g\<close>. \<^verbatim>\<open>closed[nbr]\<close> is read only when the first conjunct holds.
\<close>

fun explore :: "'q pq_ops \<Rightarrow> (nat \<Rightarrow> fault + real) \<Rightarrow> real \<Rightarrow> (nat \<times> real) list
    \<Rightarrow> 'q SearchState \<Rightarrow> fault + 'q SearchState" where
  "explore ops h cg [] s = Inr s"
| "explore ops h cg ((nbr, w) # rest) s =
     (let newG = cg + w in
      if nbr < length (dist_v s) then
        (if improves newG (dist_v s ! nbr) then
           (if nbr < length (closed_v s) then
              (if \<not> closed_v s ! nbr then
                 (case h nbr of
                    Inl e \<Rightarrow> Inl e
                  | Inr hv \<Rightarrow> explore ops h cg rest (push_nbr ops nbr newG (newG + hv) s))
               else explore ops h cg rest s)
            else Inl OutOfRange)
         else explore ops h cg rest s)
      else Inl OutOfRange)"

text \<open>
  Lines 146 to 172: one pass of the body of the \<^verbatim>\<open>while\<close> loop, entered with a non-empty
  queue. It ends in \<^verbatim>\<open>continue\<close> or at the end of the body (\<open>Continue\<close>), in
  \<^verbatim>\<open>break\<close> (\<open>Break\<close>), or in an access out of range.
\<close>

datatype 'a outcome = Continue 'a | Break 'a | Fail fault

definition loop_body :: "'q pq_ops \<Rightarrow> GraphData \<Rightarrow> (nat \<Rightarrow> fault + real)
    \<Rightarrow> 'q SearchState \<Rightarrow> 'q SearchState outcome" where
  "loop_body ops G h s =
     (let cur = pq_top ops (open_pq s);
          s1 = s\<lparr> open_pq := pq_pop ops (open_pq s), steps := steps s + 1 \<rparr>
      in
      if node cur < length (dist_v s1) then
        (if exceeds (g cur) (dist_v s1 ! node cur) then
           Continue (s1\<lparr> trace := trace s1 @ [Stale cur] \<rparr>)
         else
           (let s2 = s1\<lparr> nodesExpanded := nodesExpanded s1 + 1,
                         trace := trace s1 @ [Expand cur] \<rparr>
            in
            if node cur = goalNode G then Break s2
            else if node cur < length (closed_v s2) \<and> node cur < length (adjacencyList G) then
              (case explore ops h (g cur) (adjacencyList G ! node cur)
                      (s2\<lparr> closed_v := (closed_v s2)[node cur := True] \<rparr>) of
                 Inl e \<Rightarrow> Fail e
               | Inr s3 \<Rightarrow> Continue s3)
            else Fail OutOfRange))
      else Fail OutOfRange)"

text \<open>Lines 145 to 173: the \<^verbatim>\<open>while\<close> loop. \<open>None\<close> is a loop that never ends.\<close>

partial_function (option) astar_loop :: "'q pq_ops \<Rightarrow> GraphData \<Rightarrow> (nat \<Rightarrow> fault + real)
    \<Rightarrow> 'q SearchState \<Rightarrow> (fault + 'q SearchState) option" where
  "astar_loop ops G h s =
     (if pq_empty ops (open_pq s) then Some (Inr s)
      else
        (case loop_body ops G h s of
           Continue s' \<Rightarrow> astar_loop ops G h s'
         | Break s' \<Rightarrow> Some (Inr s')
         | Fail e \<Rightarrow> Some (Inl e)))"

text \<open>Line 185, the right-hand side: the path cost read off the final \<^verbatim>\<open>dist\<close>.\<close>

definition pathCost_of :: "GraphData \<Rightarrow> 'q SearchState \<Rightarrow> fault + real" where
  "pathCost_of G s =
     (if goalNode G < length (dist_v s) then
        (case dist_v s ! goalNode G of
           Infinity \<Rightarrow> Inr (- 1)
         | Finite d \<Rightarrow> Inr d)
      else Inl OutOfRange)"

text \<open>One search: lines 134 to 173, from fresh state to the state the loop leaves.\<close>

definition search :: "'q pq_ops \<Rightarrow> GraphData \<Rightarrow> (nat \<Rightarrow> fault + real)
    \<Rightarrow> (fault + 'q SearchState) option" where
  "search ops G h =
     (case init_search ops G h of
        Inl e \<Rightarrow> Some (Inl e)
      | Inr s0 \<Rightarrow> astar_loop ops G h s0)"

declare astar_loop.simps [code]

section \<open>The harness: \<^verbatim>\<open>runAStar\<close>, lines 122 to 202\<close>

definition NUM_RUNS :: nat where
  "NUM_RUNS = 100"

text \<open>
  The accumulators declared in lines 123 to 126. \<^verbatim>\<open>totalNodesExpanded\<close> and
  \<^verbatim>\<open>totalSteps\<close> are \<^verbatim>\<open>int\<close>, 32 bits wide: they are words, read as signed numbers by
  \<open>sint\<close>, and an addition that leaves the range of \<^verbatim>\<open>int\<close> wraps around.
  \<^verbatim>\<open>totalNanoseconds\<close> is a \<^verbatim>\<open>long long\<close> of nanoseconds, which a hundred runs cannot
  fill: it is an integer.
\<close>

record Totals =
  totalNanoseconds :: int
  totalNodesExpanded :: "32 word"
  totalSteps :: "32 word"
  pathCost :: real

text \<open>
  Lines 129 to 187: the \<^verbatim>\<open>for\<close> loop from \<open>run\<close> on. \<open>clock run\<close> is the duration the
  steady clock measures for that run, in nanoseconds. \<^verbatim>\<open>dist[goal]\<close> is read in run 0
  only.
\<close>

function runs_from :: "'q pq_ops \<Rightarrow> GraphData \<Rightarrow> (nat \<Rightarrow> fault + real) \<Rightarrow> (nat \<Rightarrow> int)
    \<Rightarrow> nat \<Rightarrow> Totals \<Rightarrow> (fault + Totals) option" where
  "runs_from ops G h clock run acc =
     (if run < NUM_RUNS then
        (case search ops G h of
           None \<Rightarrow> None
         | Some (Inl e) \<Rightarrow> Some (Inl e)
         | Some (Inr s) \<Rightarrow>
             (let acc1 = acc\<lparr> totalNanoseconds := totalNanoseconds acc + clock run,
                              totalNodesExpanded :=
                                totalNodesExpanded acc + word_of_nat (nodesExpanded s),
                              totalSteps := totalSteps acc + word_of_nat (steps s) \<rparr>
              in
              if run = 0 then
                (case pathCost_of G s of
                   Inl e \<Rightarrow> Some (Inl e)
                 | Inr c \<Rightarrow> runs_from ops G h clock (Suc run) (acc1\<lparr> pathCost := c \<rparr>))
              else runs_from ops G h clock (Suc run) acc1))
      else Some (Inr acc))"
  by pat_completeness auto
termination
  by (relation "measure (\<lambda>(ops, G, h, clock, run, acc). NUM_RUNS - run)") auto

text \<open>
  What lines 190 to 200 compute and print: the three averages, the average time in
  milliseconds, the figure printed as "Min execution time", and the path cost.
\<close>

record Report =
  avgTimeNs :: real
  avgNodesExpanded :: real
  avgSteps :: real
  avgTimeMs :: real
  minTimeMs :: real
  reportedPathCost :: real

definition report :: "Totals \<Rightarrow> Report" where
  "report t =
     (let avgT = real_of_int (totalNanoseconds t) / real NUM_RUNS in
      \<lparr> avgTimeNs = avgT,
        avgNodesExpanded = real_of_int (sint (totalNodesExpanded t)) / real NUM_RUNS,
        avgSteps = real_of_int (sint (totalSteps t)) / real NUM_RUNS,
        avgTimeMs = avgT / 1000000,
        minTimeMs = real_of_int (totalNanoseconds t) / (real NUM_RUNS * 1000000),
        reportedPathCost = pathCost t \<rparr>)"

definition runAStar :: "'q pq_ops \<Rightarrow> GraphData \<Rightarrow> (nat \<Rightarrow> fault + real) \<Rightarrow> (nat \<Rightarrow> int)
    \<Rightarrow> (fault + Report) option" where
  "runAStar ops G h clock =
     (case runs_from ops G h clock 0
             \<lparr> totalNanoseconds = 0, totalNodesExpanded = 0, totalSteps = 0, pathCost = 0 \<rparr> of
        None \<Rightarrow> None
      | Some (Inl e) \<Rightarrow> Some (Inl e)
      | Some (Inr t) \<Rightarrow> Some (Inr (report t)))"

section \<open>Vocabulary of the properties\<close>

text \<open>
  The data-model invariants of a graph handed to the search: the three vectors have
  \<open>numNodes\<close> entries, and the start, the goal and every neighbour are node indices.
\<close>

definition valid_graph :: "GraphData \<Rightarrow> bool" where
  "valid_graph G \<longleftrightarrow>
     length (adjacencyList G) = numNodes G \<and>
     length (coordinates G) = numNodes G \<and>
     startNode G < numNodes G \<and>
     goalNode G < numNodes G \<and>
     (\<forall>es \<in> set (adjacencyList G). \<forall>e \<in> set es. fst e < numNodes G)"

definition nonneg_weights :: "GraphData \<Rightarrow> bool" where
  "nonneg_weights G \<longleftrightarrow> (\<forall>es \<in> set (adjacencyList G). \<forall>e \<in> set es. 0 \<le> snd e)"

text \<open>The value of a heuristic at a node, and a heuristic that reads no vector out of range.\<close>

definition hval :: "(nat \<Rightarrow> fault + real) \<Rightarrow> nat \<Rightarrow> real" where
  "hval h v = (case h v of Inr x \<Rightarrow> x | Inl e \<Rightarrow> 0)"

definition heur_total :: "GraphData \<Rightarrow> (nat \<Rightarrow> fault + real) \<Rightarrow> bool" where
  "heur_total G h \<longleftrightarrow> (\<forall>v < numNodes G. h v = Inr (hval h v))"


text \<open>The heuristic that is zero everywhere: with it the search is Dijkstra's algorithm.\<close>

definition zero_heuristic :: "nat \<Rightarrow> fault + real" where
  "zero_heuristic n = Inr 0"

text \<open>
  A path from \<open>u\<close> to \<open>v\<close> is the list of adjacency entries it follows; its cost is the
  sum of their weights.
\<close>

fun is_path :: "GraphData \<Rightarrow> nat \<Rightarrow> (nat \<times> real) list \<Rightarrow> nat \<Rightarrow> bool" where
  "is_path G u [] v = (u = v)"
| "is_path G u (e # p) v =
     (u < length (adjacencyList G) \<and> e \<in> set (adjacencyList G ! u) \<and> is_path G (fst e) p v)"

definition path_cost :: "(nat \<times> real) list \<Rightarrow> real" where
  "path_cost p = sum_list (map snd p)"

text \<open>The entries of a trace: pushed, removed (stale or not), and removed and not stale.\<close>

fun pushed_of :: "event list \<Rightarrow> State list" where
  "pushed_of [] = []"
| "pushed_of (Push e # t) = e # pushed_of t"
| "pushed_of (Stale e # t) = pushed_of t"
| "pushed_of (Expand e # t) = pushed_of t"

fun popped_of :: "event list \<Rightarrow> State list" where
  "popped_of [] = []"
| "popped_of (Push e # t) = popped_of t"
| "popped_of (Stale e # t) = e # popped_of t"
| "popped_of (Expand e # t) = e # popped_of t"

fun expanded_of :: "event list \<Rightarrow> State list" where
  "expanded_of [] = []"
| "expanded_of (Push e # t) = expanded_of t"
| "expanded_of (Stale e # t) = expanded_of t"
| "expanded_of (Expand e # t) = e # expanded_of t"

text \<open>The least \<open>g\<close> among the entries pushed for a node; \<open>Infinity\<close> when there is none.\<close>

definition min_pushed :: "event list \<Rightarrow> nat \<Rightarrow> cost" where
  "min_pushed t v =
     (let gs = map g (filter (\<lambda>e. node e = v) (pushed_of t))
      in if gs = [] then Infinity else Finite (Min (set gs)))"

text \<open>No entry is pushed for a node after an entry of that node was expanded.\<close>

fun never_repushed :: "event list \<Rightarrow> bool" where
  "never_repushed [] = True"
| "never_repushed (Expand c # t) =
     ((\<forall>e \<in> set (pushed_of t). node e \<noteq> node c) \<and> never_repushed t)"
| "never_repushed (Push e # t) = never_repushed t"
| "never_repushed (Stale e # t) = never_repushed t"

text \<open>
  The states at the head of the \<^verbatim>\<open>while\<close> loop in the search that starts in \<open>s0\<close>.
\<close>

inductive reach :: "'q pq_ops \<Rightarrow> GraphData \<Rightarrow> (nat \<Rightarrow> fault + real)
    \<Rightarrow> 'q SearchState \<Rightarrow> 'q SearchState \<Rightarrow> bool"
  for ops G h s0 where
  reach_init: "reach ops G h s0 s0"
| reach_step: "reach ops G h s0 s \<Longrightarrow> \<not> pq_empty ops (open_pq s) \<Longrightarrow>
     loop_body ops G h s = Continue s' \<Longrightarrow> reach ops G h s0 s'"

text \<open>
  The states one pass of the loop body goes through, with \<open>cur\<close> the top of the queue:
  after a stale entry is dropped; after \<^verbatim>\<open>nodesExpanded++\<close> (the state a \<^verbatim>\<open>break\<close> leaves);
  and after \<^verbatim>\<open>closed[cur.node] = true\<close>, where the neighbour loop starts.
\<close>

definition stale_state :: "'q pq_ops \<Rightarrow> 'q SearchState \<Rightarrow> 'q SearchState" where
  "stale_state ops s =
     s\<lparr> open_pq := pq_pop ops (open_pq s), steps := steps s + 1,
        trace := trace s @ [Stale (pq_top ops (open_pq s))] \<rparr>"

definition expanded_state :: "'q pq_ops \<Rightarrow> 'q SearchState \<Rightarrow> 'q SearchState" where
  "expanded_state ops s =
     s\<lparr> open_pq := pq_pop ops (open_pq s), steps := steps s + 1,
        nodesExpanded := nodesExpanded s + 1,
        trace := trace s @ [Expand (pq_top ops (open_pq s))] \<rparr>"

definition closed_state :: "'q pq_ops \<Rightarrow> 'q SearchState \<Rightarrow> 'q SearchState" where
  "closed_state ops s =
     (expanded_state ops s)\<lparr> closed_v := (closed_v s)[node (pq_top ops (open_pq s)) := True] \<rparr>"

text \<open>The entries of the queue for node \<open>v\<close> that are not stale.\<close>

definition live :: "('q \<Rightarrow> State multiset) \<Rightarrow> 'q SearchState \<Rightarrow> nat \<Rightarrow> State multiset" where
  "live \<alpha> s v =
     filter_mset (\<lambda>e. node e = v \<and> \<not> exceeds (g e) (dist_v s ! v)) (\<alpha> (open_pq s))"

text \<open>
  The invariant of the search state that termination rests on: the vectors keep their
  size, every entry of the queue names a node and is not better than \<^verbatim>\<open>dist\<close>, a node has
  at most one entry that is not stale and a closed node has none, and the goal is not
  closed.
\<close>

definition state_ok :: "('q \<Rightarrow> State multiset) \<Rightarrow> ('q \<Rightarrow> bool) \<Rightarrow> GraphData
    \<Rightarrow> 'q SearchState \<Rightarrow> bool" where
  "state_ok \<alpha> rinv G s \<longleftrightarrow>
     rinv (open_pq s) \<and>
     length (dist_v s) = numNodes G \<and>
     length (closed_v s) = numNodes G \<and>
     (\<forall>e \<in># \<alpha> (open_pq s). node e < numNodes G \<and> \<not> improves (g e) (dist_v s ! node e)) \<and>
     (\<forall>v < numNodes G. size (live \<alpha> s v) \<le> 1) \<and>
     (\<forall>v < numNodes G. closed_v s ! v \<longrightarrow> live \<alpha> s v = {#}) \<and>
     \<not> closed_v s ! goalNode G"

text \<open>The adjacency entries of the nodes not yet closed, and of all nodes.\<close>

definition pending :: "GraphData \<Rightarrow> 'q SearchState \<Rightarrow> nat" where
  "pending G s =
     (\<Sum>v \<in> {v. v < numNodes G \<and> \<not> closed_v s ! v}. length (adjacencyList G ! v))"

definition numAdjEntries :: "GraphData \<Rightarrow> nat" where
  "numAdjEntries G = sum_list (map length (adjacencyList G))"

text \<open>
  What the trace records, relative to the program's variables: the two counters count
  its removals, the queue holds the entries pushed and not yet removed, the expanded
  entries are of distinct nodes, namely the closed ones, \<^verbatim>\<open>dist\<close> is the least \<open>g\<close> pushed,
  and no node is pushed after it was expanded.
\<close>

definition trace_ok :: "('q \<Rightarrow> State multiset) \<Rightarrow> GraphData \<Rightarrow> 'q SearchState \<Rightarrow> bool" where
  "trace_ok \<alpha> G s \<longleftrightarrow>
     nodesExpanded s = length (expanded_of (trace s)) \<and>
     steps s = length (popped_of (trace s)) \<and>
     mset (pushed_of (trace s)) = \<alpha> (open_pq s) + mset (popped_of (trace s)) \<and>
     distinct (map node (expanded_of (trace s))) \<and>
     set (map node (expanded_of (trace s))) = {v. v < numNodes G \<and> closed_v s ! v} \<and>
     (\<forall>v < numNodes G. dist_v s ! v = min_pushed (trace s) v) \<and>
     never_repushed (trace s)"

text \<open>
  Three graphs to run the search on: a triangle whose direct edge from start to goal costs
  more than the way round, two nodes with no edge, and one node that is start and goal.
\<close>

definition triangle :: GraphData where
  "triangle = \<lparr> numNodes = 3,
     adjacencyList = [[(1, 1), (2, 5 / 2)], [(0, 1), (2, 1)], [(1, 1), (0, 5 / 2)]],
     coordinates = [(0, 0), (1, 0), (1, 1)],
     startNode = 0, goalNode = 2, name = ''triangle'' \<rparr>"

definition disconnected_pair :: GraphData where
  "disconnected_pair = \<lparr> numNodes = 2, adjacencyList = [[], []],
     coordinates = [(0, 0), (1, 0)],
     startNode = 0, goalNode = 1, name = ''pair'' \<rparr>"

definition single_node :: GraphData where
  "single_node = \<lparr> numNodes = 1, adjacencyList = [[]], coordinates = [(0, 0)],
     startNode = 0, goalNode = 0, name = ''single'' \<rparr>"

text \<open>
  The states a search that starts in \<open>s0\<close> visits: those at the head of the loop, and the
  state a \<^verbatim>\<open>break\<close> leaves.
\<close>

definition visited :: "'q pq_ops \<Rightarrow> GraphData \<Rightarrow> (nat \<Rightarrow> fault + real)
    \<Rightarrow> 'q SearchState \<Rightarrow> 'q SearchState \<Rightarrow> bool" where
  "visited ops G h s0 s \<longleftrightarrow>
     reach ops G h s0 s \<or>
     (\<exists>s'. reach ops G h s0 s' \<and> \<not> pq_empty ops (open_pq s') \<and> loop_body ops G h s' = Break s)"

text \<open>
  The state at the head of the loop after \<open>k\<close> passes that continued; \<open>None\<close> when the
  loop has ended before.
\<close>

fun state_at :: "'q pq_ops \<Rightarrow> GraphData \<Rightarrow> (nat \<Rightarrow> fault + real) \<Rightarrow> nat
    \<Rightarrow> 'q SearchState \<Rightarrow> 'q SearchState option" where
  "state_at ops G h 0 s = Some s"
| "state_at ops G h (Suc k) s =
     (if pq_empty ops (open_pq s) then None
      else (case loop_body ops G h s of
              Continue s' \<Rightarrow> state_at ops G h k s'
            | Break s' \<Rightarrow> None
            | Fail e \<Rightarrow> None))"

text \<open>
  A fourth graph: the goal lies behind node 2, which is reached first by the direct edge
  and then more cheaply through node 1, so that the queue comes to hold a stale entry.
  Its edges are \<open>(0,1,1)\<close>, \<open>(1,2,1)\<close>, \<open>(0,2,5/2)\<close> and \<open>(2,3,2)\<close>.
\<close>

definition detour :: GraphData where
  "detour = \<lparr> numNodes = 4,
     adjacencyList = [[(1, 1), (2, 5 / 2)], [(0, 1), (2, 1)], [(1, 1), (0, 5 / 2), (3, 2)], [(2, 2)]],
     coordinates = [(0, 0), (0, 0), (0, 0), (1, 0)],
     startNode = 0, goalNode = 3, name = ''detour'' \<rparr>"

text \<open>
  Three states of the search on \<open>detour\<close> with the zero heuristic and the list queue: the
  initial one, the one after three passes, whose top entry is the stale entry of node 2,
  and the one after four, whose top entry is the entry of the goal.
\<close>

definition detour_s0 :: "State list SearchState" where
  "detour_s0 = \<lparr> open_pq = [\<lparr> node = 0, g = 0, f = 0 \<rparr>],
     dist_v = [Finite 0, Infinity, Infinity, Infinity],
     closed_v = [False, False, False, False],
     nodesExpanded = 0, steps = 0,
     trace = [Push \<lparr> node = 0, g = 0, f = 0 \<rparr>] \<rparr>"

definition detour_s3 :: "State list SearchState" where
  "detour_s3 = \<lparr> open_pq = [\<lparr> node = 2, g = 5 / 2, f = 5 / 2 \<rparr>, \<lparr> node = 3, g = 4, f = 4 \<rparr>],
     dist_v = [Finite 0, Finite 1, Finite 2, Finite 4],
     closed_v = [True, True, True, False],
     nodesExpanded = 3, steps = 3,
     trace = [Push \<lparr> node = 0, g = 0, f = 0 \<rparr>, Expand \<lparr> node = 0, g = 0, f = 0 \<rparr>,
       Push \<lparr> node = 1, g = 1, f = 1 \<rparr>, Push \<lparr> node = 2, g = 5 / 2, f = 5 / 2 \<rparr>,
       Expand \<lparr> node = 1, g = 1, f = 1 \<rparr>, Push \<lparr> node = 2, g = 2, f = 2 \<rparr>,
       Expand \<lparr> node = 2, g = 2, f = 2 \<rparr>, Push \<lparr> node = 3, g = 4, f = 4 \<rparr>] \<rparr>"

definition detour_s4 :: "State list SearchState" where
  "detour_s4 = detour_s3\<lparr> open_pq := [\<lparr> node = 3, g = 4, f = 4 \<rparr>], steps := 4,
     trace := trace detour_s3 @ [Stale \<lparr> node = 2, g = 5 / 2, f = 5 / 2 \<rparr>] \<rparr>"

text \<open>Every finite entry of \<^verbatim>\<open>dist\<close> is the cost of a path from the start to that node.\<close>

definition dist_paths :: "GraphData \<Rightarrow> 'q SearchState \<Rightarrow> bool" where
  "dist_paths G s \<longleftrightarrow>
     (\<forall>v < numNodes G. \<forall>d. dist_v s ! v = Finite d \<longrightarrow>
        (\<exists>p. is_path G (startNode G) p v \<and> path_cost p = d))"

text \<open>
  The harness as section 4.2 of the specification describes it, with the number of runs
  an argument: \<open>benchmark runs\<close> runs the search \<open>runs\<close> times, takes the path cost from the
  first run, and reports the arithmetic means, the sums divided by \<open>runs\<close>. It is
  compared with \<open>runAStar\<close> below.
\<close>

record Sums =
  sumNanoseconds :: int
  sumNodesExpanded :: nat
  sumSteps :: nat
  firstPathCost :: real

fun benchmark_runs :: "'q pq_ops \<Rightarrow> GraphData \<Rightarrow> (nat \<Rightarrow> fault + real) \<Rightarrow> (nat \<Rightarrow> int)
    \<Rightarrow> nat list \<Rightarrow> Sums \<Rightarrow> (fault + Sums) option" where
  "benchmark_runs ops G h clock [] acc = Some (Inr acc)"
| "benchmark_runs ops G h clock (run # rest) acc =
     (case search ops G h of
        None \<Rightarrow> None
      | Some (Inl e) \<Rightarrow> Some (Inl e)
      | Some (Inr s) \<Rightarrow>
          (let acc1 = acc\<lparr> sumNanoseconds := sumNanoseconds acc + clock run,
                           sumNodesExpanded := sumNodesExpanded acc + nodesExpanded s,
                           sumSteps := sumSteps acc + steps s \<rparr>
           in
           if run = 0 then
             (case pathCost_of G s of
                Inl e \<Rightarrow> Some (Inl e)
              | Inr c \<Rightarrow> benchmark_runs ops G h clock rest (acc1\<lparr> firstPathCost := c \<rparr>))
           else benchmark_runs ops G h clock rest acc1))"

definition report_for :: "nat \<Rightarrow> Sums \<Rightarrow> Report" where
  "report_for runs t =
     (let avgT = real_of_int (sumNanoseconds t) / real runs in
      \<lparr> avgTimeNs = avgT,
        avgNodesExpanded = real (sumNodesExpanded t) / real runs,
        avgSteps = real (sumSteps t) / real runs,
        avgTimeMs = avgT / 1000000,
        minTimeMs = real_of_int (sumNanoseconds t) / (real runs * 1000000),
        reportedPathCost = firstPathCost t \<rparr>)"

definition benchmark :: "nat \<Rightarrow> 'q pq_ops \<Rightarrow> GraphData \<Rightarrow> (nat \<Rightarrow> fault + real)
    \<Rightarrow> (nat \<Rightarrow> int) \<Rightarrow> (fault + Report) option" where
  "benchmark runs ops G h clock =
     (case benchmark_runs ops G h clock [0..<runs]
             \<lparr> sumNanoseconds = 0, sumNodesExpanded = 0, sumSteps = 0, firstPathCost = 0 \<rparr> of
        None \<Rightarrow> None
      | Some (Inl e) \<Rightarrow> Some (Inl e)
      | Some (Inr t) \<Rightarrow> Some (Inr (report_for runs t)))"

text \<open>The state the search on \<open>detour\<close> returns, and a clock that reads \<open>i\<close> in run \<open>i\<close>.\<close>

definition detour_sf :: "State list SearchState" where
  "detour_sf = detour_s4\<lparr> open_pq := [], steps := 5, nodesExpanded := 4,
     trace := trace detour_s4 @ [Expand \<lparr> node = 3, g = 4, f = 4 \<rparr>] \<rparr>"

definition index_clock :: "nat \<Rightarrow> int" where
  "index_clock i = int i"



text \<open>
  When the arithmetic of a search is exact in \<^verbatim>\<open>double\<close>. A multiple of \<open>2^-k\<close>, \<open>k\<close> at
  most 1074, with a natural numerator of at most \<open>2^53\<close> is a \<^verbatim>\<open>double\<close>, and the
  operations of IEEE 754 (sum, difference, product, square root) return the exact
  result when it is one. \<open>dyadic k x\<close>: \<open>x\<close> is such a multiple.
\<close>

definition dyadic :: "nat \<Rightarrow> real \<Rightarrow> bool" where
  "dyadic k x \<longleftrightarrow> x * 2 ^ k \<in> \<nat> \<and> x * 2 ^ k \<le> 2 ^ 53"

text \<open>The sum of the weights of an adjacency list, and of all of them.\<close>

definition wsum :: "(nat \<times> real) list \<Rightarrow> real" where
  "wsum es = sum_list (map snd es)"

definition total_weight :: "GraphData \<Rightarrow> real" where
  "total_weight G = sum_list (map wsum (adjacencyList G))"

text \<open>
  \<open>exact_doubles k G\<close> is a condition on the graph under which no operation of the search
  with the Euclidean heuristic rounds or overflows. The weights are natural multiples of
  \<open>2^-k\<close>. The coordinates are integer multiples of \<open>2^-k\<close> of magnitude at most \<open>2^25\<close>, so
  that \<^verbatim>\<open>dx\<close>, \<^verbatim>\<open>dy\<close>, their squares and the sum of the squares have numerators of at most
  \<open>2^53\<close> on the scale \<open>2^-2k\<close>; the value of the heuristic, the square root, is a natural
  multiple of \<open>2^-k\<close>. And the sum of all weights plus the heuristic of any node is at most
  \<open>2^53\<close> on the scale \<open>2^-k\<close>: this bounds every \<^verbatim>\<open>newG\<close> and \<^verbatim>\<open>newF\<close>. Lemmas
  \<open>exact_heuristic\<close> and \<open>exact_run\<close> below show that every number formed is then one
  that a \<^verbatim>\<open>double\<close> holds.
\<close>

definition exact_doubles :: "nat \<Rightarrow> GraphData \<Rightarrow> bool" where
  "exact_doubles k G \<longleftrightarrow>
     k \<le> 500 \<and>
     (\<forall>es \<in> set (adjacencyList G). \<forall>e \<in> set es. snd e * 2 ^ k \<in> \<nat>) \<and>
     (\<forall>c \<in> set (coordinates G).
        fst c * 2 ^ k \<in> \<int> \<and> \<bar>fst c\<bar> * 2 ^ k \<le> 2 ^ 25 \<and>
        snd c * 2 ^ k \<in> \<int> \<and> \<bar>snd c\<bar> * 2 ^ k \<le> 2 ^ 25) \<and>
     (\<forall>n < numNodes G. hval (heuristic G) n * 2 ^ k \<in> \<nat>) \<and>
     (\<forall>n < numNodes G. (total_weight G + hval (heuristic G) n) * 2 ^ k \<le> 2 ^ 53)"

text \<open>
  The weights of the adjacency lists of the closed nodes, and the invariant that shows the
  search exact: every finite \<^verbatim>\<open>dist\<close> is a natural multiple of \<open>2^-k\<close> and at most the
  weight of the closed lists; so is the \<open>g\<close> of every entry pushed, whose \<open>f\<close> is \<open>g\<close> plus
  the heuristic; and the \<open>g\<close> of an expanded entry plus all the weights of its adjacency
  list stays below the sum of all weights.
\<close>

definition closed_weight :: "GraphData \<Rightarrow> 'q SearchState \<Rightarrow> real" where
  "closed_weight G s =
     (\<Sum>v \<in> {v. v < numNodes G \<and> closed_v s ! v}. wsum (adjacencyList G ! v))"


text \<open>
  A family of graphs: the chain of \<open>n\<close> nodes, built from the edges \<open>(i, i + 1, 1)\<close>, all
  nodes at the origin, from node 0 to node \<open>n - 1\<close>. \<open>chain_at n k s\<close>: \<open>s\<close> is a state of the
  search on it in which the nodes below \<open>k\<close> are closed and the entry of node \<open>k\<close> is the
  only one in the list queue.
\<close>

definition chain :: "nat \<Rightarrow> GraphData" where
  "chain n = \<lparr> numNodes = n,
     adjacencyList = map (\<lambda>i. (if 0 < i then [(i - 1, 1)] else []) @
                                 (if Suc i < n then [(Suc i, 1)] else [])) [0..<n],
     coordinates = replicate n (0, 0),
     startNode = 0, goalNode = n - 1, name = ''chain'' \<rparr>"

definition chain_at :: "nat \<Rightarrow> nat \<Rightarrow> State list SearchState \<Rightarrow> bool" where
  "chain_at n k s \<longleftrightarrow>
     open_pq s = [\<lparr> node = k, g = real k, f = real k \<rparr>] \<and>
     dist_v s = map (\<lambda>i. Finite (real i)) [0..<Suc k] @ replicate (n - Suc k) Infinity \<and>
     closed_v s = replicate k True @ replicate (n - k) False \<and>
     nodesExpanded s = k \<and> steps s = k"

section \<open>The queue, the trace and the neighbour loop\<close>

lemma pq_spec_new: "pq_spec ops \<alpha> rinv \<Longrightarrow> rinv (pq_new ops) \<and> \<alpha> (pq_new ops) = {#}"
  by (simp add: pq_spec_def)

lemma pq_spec_empty: "pq_spec ops \<alpha> rinv \<Longrightarrow> rinv q \<Longrightarrow> pq_empty ops q \<longleftrightarrow> \<alpha> q = {#}"
  by (simp add: pq_spec_def)

lemma pq_spec_push:
  "pq_spec ops \<alpha> rinv \<Longrightarrow> rinv q \<Longrightarrow>
   rinv (pq_push ops x q) \<and> \<alpha> (pq_push ops x q) = add_mset x (\<alpha> q)"
  by (simp add: pq_spec_def)

lemma pq_spec_top:
  assumes "pq_spec ops \<alpha> rinv" "rinv q" "\<not> pq_empty ops q"
  shows "pq_top ops q \<in># \<alpha> q"
    and "y \<in># \<alpha> q \<Longrightarrow> f (pq_top ops q) \<le> f y"
    and "rinv (pq_pop ops q)"
    and "\<alpha> (pq_pop ops q) = \<alpha> q - {#pq_top ops q#}"
proof -
  from assms have ne: "\<alpha> q \<noteq> {#}" by (simp add: pq_spec_def)
  with assms(1,2) have *: "pq_top ops q \<in># \<alpha> q \<and>
        (\<forall>y. y \<in># \<alpha> q \<longrightarrow> \<not> CompareState (pq_top ops q) y) \<and>
        rinv (pq_pop ops q) \<and>
        \<alpha> (pq_pop ops q) = \<alpha> q - {#pq_top ops q#}"
    unfolding pq_spec_def by blast
  from * show "pq_top ops q \<in># \<alpha> q" "rinv (pq_pop ops q)"
    "\<alpha> (pq_pop ops q) = \<alpha> q - {#pq_top ops q#}" by simp_all
  from * show "y \<in># \<alpha> q \<Longrightarrow> f (pq_top ops q) \<le> f y"
    by (auto simp: CompareState_def not_less)
qed

lemma list_pq_spec: "pq_spec list_pq mset (\<lambda>q. sorted (map f q))"
proof -
  have "\<And>q :: State list. sorted (map f q) \<Longrightarrow> q \<noteq> [] \<Longrightarrow>
      hd q \<in> set q \<and> (\<forall>y. y \<in> set q \<longrightarrow> f (hd q) \<le> f y) \<and> sorted (map f (tl q)) \<and>
      mset (tl q) = mset q - {#hd q#}"
    subgoal for q by (cases q) auto
    done
  then have "\<forall>q :: State list. sorted (map f q) \<and> q \<noteq> [] \<longrightarrow>
      hd q \<in> set q \<and> (\<forall>y. y \<in> set q \<longrightarrow> f (hd q) \<le> f y) \<and> sorted (map f (tl q)) \<and>
      mset (tl q) = mset q - {#hd q#}"
    by blast
  then show ?thesis
    unfolding pq_spec_def list_pq_def
    by (simp add: sorted_insort_key CompareState_def not_less)
qed

lemma pushed_of_append [simp]: "pushed_of (a @ b) = pushed_of a @ pushed_of b"
  by (induction a rule: pushed_of.induct) auto

lemma popped_of_append [simp]: "popped_of (a @ b) = popped_of a @ popped_of b"
  by (induction a rule: popped_of.induct) auto

lemma expanded_of_append [simp]: "expanded_of (a @ b) = expanded_of a @ expanded_of b"
  by (induction a rule: expanded_of.induct) auto

lemma pushed_of_map_Push [simp]: "pushed_of (map Push xs) = xs"
  by (induction xs) auto

lemma popped_of_map_Push [simp]: "popped_of (map Push xs) = []"
  by (induction xs) auto

lemma expanded_of_map_Push [simp]: "expanded_of (map Push xs) = []"
  by (induction xs) auto

lemma push_nbr_simps [simp]:
  "dist_v (push_nbr ops nbr newG newF s) = (dist_v s)[nbr := Finite newG]"
  "open_pq (push_nbr ops nbr newG newF s) = pq_push ops \<lparr> node = nbr, g = newG, f = newF \<rparr> (open_pq s)"
  "trace (push_nbr ops nbr newG newF s) = trace s @ [Push \<lparr> node = nbr, g = newG, f = newF \<rparr>]"
  "closed_v (push_nbr ops nbr newG newF s) = closed_v s"
  "nodesExpanded (push_nbr ops nbr newG newF s) = nodesExpanded s"
  "steps (push_nbr ops nbr newG newF s) = steps s"
  by (simp_all add: push_nbr_def)

lemma explore_rule:
  fixes s :: "'q SearchState"
  assumes "P s"
    and "set es \<subseteq> E"
    and len: "\<And>s. P s \<Longrightarrow> length (dist_v s) = N \<and> length (closed_v s) = N"
    and es: "\<forall>e \<in> E. fst e < N"
    and ht: "\<forall>v < N. h v = Inr (hv v)"
    and push: "\<And>s nbr w. P s \<Longrightarrow> (nbr, w) \<in> E \<Longrightarrow> nbr < N \<Longrightarrow>
        improves (cg + w) (dist_v s ! nbr) \<Longrightarrow> \<not> closed_v s ! nbr \<Longrightarrow>
        P (push_nbr ops nbr (cg + w) (cg + w + hv nbr) s)"
  shows "\<exists>s'. explore ops h cg es s = Inr s' \<and> P s'"
  using assms(1,2)
proof (induction es arbitrary: s)
  case Nil
  then show ?case by simp
next
  case (Cons e es)
  obtain nbr w where e: "e = (nbr, w)" by (cases e)
  from Cons.prems e have mem: "(nbr, w) \<in> E" and sub: "set es \<subseteq> E" by auto
  from mem es have nbr: "nbr < N" by fastforce
  from len[OF Cons.prems(1)] have l: "length (dist_v s) = N" "length (closed_v s) = N" by simp_all
  show ?case
  proof (cases "improves (cg + w) (dist_v s ! nbr) \<and> \<not> closed_v s ! nbr")
    case True
    then have "P (push_nbr ops nbr (cg + w) (cg + w + hv nbr) s)"
      using push[OF Cons.prems(1) mem nbr] by simp
    from Cons.IH[OF this sub] True show ?thesis
      using nbr l ht by (simp add: e Let_def)
  next
    case False
    from Cons.IH[OF Cons.prems(1) sub] False show ?thesis
      using nbr l by (auto simp: e Let_def)
  qed
qed

lemma explore_ConsE:
  fixes s :: "'q SearchState"
  assumes "explore ops h cg ((nbr, w) # es) s = Inr s'"
  obtains (push) x where "improves (cg + w) (dist_v s ! nbr)" "\<not> closed_v s ! nbr"
      "nbr < length (dist_v s)" "nbr < length (closed_v s)" "h nbr = Inr x"
      "explore ops h cg es (push_nbr ops nbr (cg + w) (cg + w + x) s) = Inr s'"
    | (skip) "\<not> improves (cg + w) (dist_v s ! nbr) \<or> closed_v s ! nbr"
      "nbr < length (dist_v s)" "explore ops h cg es s = Inr s'"
proof (cases "nbr < length (dist_v s)")
  case False
  with assms show ?thesis by (simp add: Let_def)
next
  case l: True
  show ?thesis
  proof (cases "improves (cg + w) (dist_v s ! nbr)")
    case False
    with assms l skip show ?thesis by (simp add: Let_def)
  next
    case i: True
    show ?thesis
    proof (cases "nbr < length (closed_v s)")
      case False
      with assms l i show ?thesis by (simp add: Let_def)
    next
      case lc: True
      show ?thesis
      proof (cases "closed_v s ! nbr")
        case True
        with assms l i lc skip show ?thesis by (simp add: Let_def)
      next
        case c: False
        show ?thesis
        proof (cases "h nbr")
          case (Inl e)
          with assms l i lc c show ?thesis by (simp add: Let_def)
        next
          case (Inr x)
          with assms l i lc c push[of x] show ?thesis by (simp add: Let_def)
        qed
      qed
    qed
  qed
qed

lemma explore_frame:
  fixes s :: "'q SearchState"
  assumes "explore ops h cg es s = Inr s'"
  shows "closed_v s' = closed_v s \<and> nodesExpanded s' = nodesExpanded s \<and> steps s' = steps s \<and>
      length (dist_v s') = length (dist_v s)"
  using assms
proof (induction es arbitrary: s)
  case Nil
  then show ?case by simp
next
  case (Cons e es)
  obtain nbr w where e: "e = (nbr, w)" by (cases e)
  from Cons.prems[unfolded e] show ?case
  proof (cases rule: explore_ConsE)
    case (push x)
    from Cons.IH[OF push(6)] show ?thesis by simp
  next
    case skip
    from Cons.IH[OF skip(3)] show ?thesis .
  qed
qed

lemma explore_queue:
  fixes s :: "'q SearchState"
  assumes spec: "pq_spec ops \<alpha> rinv"
    and "rinv (open_pq s)" "explore ops h cg es s = Inr s'"
  shows "\<exists>evs. trace s' = trace s @ map Push evs \<and> length evs \<le> length es \<and>
      rinv (open_pq s') \<and> \<alpha> (open_pq s') = \<alpha> (open_pq s) + mset evs"
  using assms(2,3)
proof (induction es arbitrary: s)
  case Nil
  then show ?case by simp
next
  case (Cons e es)
  obtain nbr w where e: "e = (nbr, w)" by (cases e)
  from Cons.prems(2)[unfolded e] show ?case
  proof (cases rule: explore_ConsE)
    case (push x)
    let ?st = "\<lparr> node = nbr, g = cg + w, f = cg + w + x \<rparr>"
    let ?s1 = "push_nbr ops nbr (cg + w) (cg + w + x) s"
    from pq_spec_push[OF spec Cons.prems(1), of ?st]
    have r1: "rinv (open_pq ?s1)" and a1: "\<alpha> (open_pq ?s1) = add_mset ?st (\<alpha> (open_pq s))"
      by simp_all
    from Cons.IH[OF r1 push(6)] obtain evs where evs:
      "trace s' = trace ?s1 @ map Push evs" "length evs \<le> length es"
      "rinv (open_pq s')" "\<alpha> (open_pq s') = \<alpha> (open_pq ?s1) + mset evs"
      by blast
    have "trace s' = trace s @ map Push (?st # evs)" using evs(1) by simp
    moreover have "length (?st # evs) \<le> length (e # es)" using evs(2) by simp
    moreover have "\<alpha> (open_pq s') = \<alpha> (open_pq s) + mset (?st # evs)"
      using evs(4) a1 by simp
    ultimately show ?thesis using evs(3) by blast
  next
    case skip
    from Cons.IH[OF Cons.prems(1) skip(3)] obtain evs where evs:
      "trace s' = trace s @ map Push evs" "length evs \<le> length es"
      "rinv (open_pq s')" "\<alpha> (open_pq s') = \<alpha> (open_pq s) + mset evs"
      by blast
    have "length evs \<le> length (e # es)" using evs(2) by simp
    with evs show ?thesis by blast
  qed
qed

lemma explore_dist_mono:
  fixes s :: "'q SearchState"
  assumes "explore ops h cg es s = Inr s'" "\<not> improves x (dist_v s ! v)"
  shows "\<not> improves x (dist_v s' ! v)"
  using assms
proof (induction es arbitrary: s)
  case Nil
  then show ?case by simp
next
  case (Cons e es)
  obtain nbr w where e: "e = (nbr, w)" by (cases e)
  from Cons.prems(1)[unfolded e] show ?case
  proof (cases rule: explore_ConsE)
    case (push y)
    have "\<not> improves x (dist_v (push_nbr ops nbr (cg + w) (cg + w + y) s) ! v)"
    proof (cases "v = nbr")
      case True
      with push(1,3) Cons.prems(2)
      show ?thesis by (cases "dist_v s ! nbr") auto
    next
      case False
      with Cons.prems(2) show ?thesis by simp
    qed
    from Cons.IH[OF push(6) this] show ?thesis .
  next
    case skip
    from Cons.IH[OF skip(3) Cons.prems(2)] show ?thesis .
  qed
qed

lemma explore_relaxed:
  fixes s :: "'q SearchState"
  assumes "explore ops h cg es s = Inr s'" "e \<in> set es"
  shows "closed_v s ! fst e \<or> \<not> improves (cg + snd e) (dist_v s' ! fst e)"
  using assms
proof (induction es arbitrary: s)
  case Nil
  then show ?case by simp
next
  case (Cons e' es)
  obtain nbr w where e': "e' = (nbr, w)" by (cases e')
  from Cons.prems(1)[unfolded e'] show ?case
  proof (cases rule: explore_ConsE)
    case (push y)
    show ?thesis
    proof (cases "e = e'")
      case True
      have "\<not> improves (cg + w) (dist_v (push_nbr ops nbr (cg + w) (cg + w + y) s) ! nbr)"
        using push(3) by simp
      from explore_dist_mono[OF push(6) this] True e' show ?thesis by simp
    next
      case False
      with Cons.prems(2) have "e \<in> set es" by simp
      from Cons.IH[OF push(6) this] show ?thesis by simp
    qed
  next
    case skip
    show ?thesis
    proof (cases "e = e'")
      case True
      with skip(1) explore_dist_mono[OF skip(3)] e' show ?thesis by auto
    next
      case False
      with Cons.prems(2) have "e \<in> set es" by simp
      from Cons.IH[OF skip(3) this] show ?thesis .
    qed
  qed
qed

lemma stale_state_simps [simp]:
  "open_pq (stale_state ops s) = pq_pop ops (open_pq s)"
  "steps (stale_state ops s) = steps s + 1"
  "trace (stale_state ops s) = trace s @ [Stale (pq_top ops (open_pq s))]"
  "dist_v (stale_state ops s) = dist_v s"
  "closed_v (stale_state ops s) = closed_v s"
  "nodesExpanded (stale_state ops s) = nodesExpanded s"
  by (simp_all add: stale_state_def)

lemma expanded_state_simps [simp]:
  "open_pq (expanded_state ops s) = pq_pop ops (open_pq s)"
  "steps (expanded_state ops s) = steps s + 1"
  "trace (expanded_state ops s) = trace s @ [Expand (pq_top ops (open_pq s))]"
  "dist_v (expanded_state ops s) = dist_v s"
  "closed_v (expanded_state ops s) = closed_v s"
  "nodesExpanded (expanded_state ops s) = nodesExpanded s + 1"
  by (simp_all add: expanded_state_def)

lemma closed_state_simps [simp]:
  "open_pq (closed_state ops s) = pq_pop ops (open_pq s)"
  "steps (closed_state ops s) = steps s + 1"
  "trace (closed_state ops s) = trace s @ [Expand (pq_top ops (open_pq s))]"
  "dist_v (closed_state ops s) = dist_v s"
  "closed_v (closed_state ops s) = (closed_v s)[node (pq_top ops (open_pq s)) := True]"
  "nodesExpanded (closed_state ops s) = nodesExpanded s + 1"
  by (simp_all add: closed_state_def)

lemma state_okD:
  assumes "state_ok \<alpha> rinv G s"
  shows "rinv (open_pq s)" "length (dist_v s) = numNodes G" "length (closed_v s) = numNodes G"
    "\<And>e. e \<in># \<alpha> (open_pq s) \<Longrightarrow> node e < numNodes G"
    "\<And>e. e \<in># \<alpha> (open_pq s) \<Longrightarrow> \<not> improves (g e) (dist_v s ! node e)"
    "\<And>v. v < numNodes G \<Longrightarrow> size (live \<alpha> s v) \<le> 1"
    "\<And>v. v < numNodes G \<Longrightarrow> closed_v s ! v \<Longrightarrow> live \<alpha> s v = {#}"
    "\<not> closed_v s ! goalNode G"
  using assms by (simp_all add: state_ok_def)

lemma state_okI:
  assumes "rinv (open_pq s)" "length (dist_v s) = numNodes G" "length (closed_v s) = numNodes G"
    "\<And>e. e \<in># \<alpha> (open_pq s) \<Longrightarrow> node e < numNodes G"
    "\<And>e. e \<in># \<alpha> (open_pq s) \<Longrightarrow> \<not> improves (g e) (dist_v s ! node e)"
    "\<And>v. v < numNodes G \<Longrightarrow> size (live \<alpha> s v) \<le> 1"
    "\<And>v. v < numNodes G \<Longrightarrow> closed_v s ! v \<Longrightarrow> live \<alpha> s v = {#}"
    "\<not> closed_v s ! goalNode G"
  shows "state_ok \<alpha> rinv G s"
  using assms by (simp add: state_ok_def)

text \<open>The top entry, when it is not stale, is the one live entry of its node.\<close>

lemma top_live:
  fixes s :: "'q SearchState"
  assumes spec: "pq_spec ops \<alpha> rinv" and ok: "state_ok \<alpha> rinv G s"
    and ne: "\<not> pq_empty ops (open_pq s)"
    and ns: "\<not> exceeds (g (pq_top ops (open_pq s))) (dist_v s ! node (pq_top ops (open_pq s)))"
  shows "live \<alpha> s (node (pq_top ops (open_pq s))) = {#pq_top ops (open_pq s)#}"
    and "\<not> closed_v s ! node (pq_top ops (open_pq s))"
proof -
  let ?cur = "pq_top ops (open_pq s)"
  have r: "rinv (open_pq s)" using ok by (rule state_okD)
  have mem: "?cur \<in># \<alpha> (open_pq s)" using pq_spec_top(1)[OF spec r ne] .
  then have lt: "node ?cur < numNodes G" using state_okD(4)[OF ok] by blast
  have "?cur \<in># live \<alpha> s (node ?cur)" using mem ns by (simp add: live_def)
  moreover have "size (live \<alpha> s (node ?cur)) \<le> 1" using state_okD(6)[OF ok lt] .
  ultimately show l: "live \<alpha> s (node ?cur) = {#?cur#}"
    by (metis One_nat_def  le_Suc_eq le_zero_eq size_1_singleton_mset size_eq_0_iff_empty empty_iff
        set_mset_empty insert_iff set_mset_add_mset_insert)
  show "\<not> closed_v s ! node ?cur"
    using state_okD(7)[OF ok lt] l by auto
qed

lemma live_pop:
  fixes s s' :: "'q SearchState"
  assumes spec: "pq_spec ops \<alpha> rinv" and r: "rinv (open_pq s)"
    and ne: "\<not> pq_empty ops (open_pq s)"
    and o: "open_pq s' = pq_pop ops (open_pq s)" and d: "dist_v s' = dist_v s"
  shows "live \<alpha> s' v = live \<alpha> s v - filter_mset (\<lambda>e. node e = v \<and> \<not> exceeds (g e) (dist_v s ! v)) {#pq_top ops (open_pq s)#}"
  using pq_spec_top(4)[OF spec r ne] o d
  by (simp add: live_def filter_diff_mset del: filter_mset_add_mset)

lemma state_ok_stale:
  fixes s :: "'q SearchState"
  assumes spec: "pq_spec ops \<alpha> rinv" and ok: "state_ok \<alpha> rinv G s"
    and ne: "\<not> pq_empty ops (open_pq s)"
  shows "state_ok \<alpha> rinv G (stale_state ops s)"
proof (rule state_okI)
  have r: "rinv (open_pq s)" using ok by (rule state_okD)
  note top = pq_spec_top[OF spec r ne]
  show "rinv (open_pq (stale_state ops s))" using top(3) by simp
  show "length (dist_v (stale_state ops s)) = numNodes G" using state_okD(2)[OF ok] by simp
  show "length (closed_v (stale_state ops s)) = numNodes G" using state_okD(3)[OF ok] by simp
  show "node e < numNodes G" if "e \<in># \<alpha> (open_pq (stale_state ops s))" for e
    using that top(4) state_okD(4)[OF ok] by (auto dest: in_diffD)
  show "\<not> improves (g e) (dist_v (stale_state ops s) ! node e)"
    if "e \<in># \<alpha> (open_pq (stale_state ops s))" for e
    using that top(4) state_okD(5)[OF ok] by (auto dest: in_diffD)
  have lp: "live \<alpha> (stale_state ops s) v \<subseteq># live \<alpha> s v" for v
    by (subst live_pop[OF spec r ne, of "stale_state ops s"]) simp_all
  show "size (live \<alpha> (stale_state ops s) v) \<le> 1" if "v < numNodes G" for v
    using size_mset_mono[OF lp[of v]] state_okD(6)[OF ok that] by simp
  show "live \<alpha> (stale_state ops s) v = {#}" if "v < numNodes G" "closed_v (stale_state ops s) ! v" for v
    using lp[of v] state_okD(7)[OF ok that(1)] that(2) by simp
  show "\<not> closed_v (stale_state ops s) ! goalNode G" using state_okD(8)[OF ok] by simp
qed

lemma state_ok_expanded:
  fixes s :: "'q SearchState"
  assumes spec: "pq_spec ops \<alpha> rinv" and ok: "state_ok \<alpha> rinv G s"
    and ne: "\<not> pq_empty ops (open_pq s)"
  shows "state_ok \<alpha> rinv G (expanded_state ops s)"
proof (rule state_okI)
  have r: "rinv (open_pq s)" using ok by (rule state_okD)
  note top = pq_spec_top[OF spec r ne]
  show "rinv (open_pq (expanded_state ops s))" using top(3) by simp
  show "length (dist_v (expanded_state ops s)) = numNodes G" using state_okD(2)[OF ok] by simp
  show "length (closed_v (expanded_state ops s)) = numNodes G" using state_okD(3)[OF ok] by simp
  show "node e < numNodes G" if "e \<in># \<alpha> (open_pq (expanded_state ops s))" for e
    using that top(4) state_okD(4)[OF ok] by (auto dest: in_diffD)
  show "\<not> improves (g e) (dist_v (expanded_state ops s) ! node e)"
    if "e \<in># \<alpha> (open_pq (expanded_state ops s))" for e
    using that top(4) state_okD(5)[OF ok] by (auto dest: in_diffD)
  have lp: "live \<alpha> (expanded_state ops s) v \<subseteq># live \<alpha> s v" for v
    by (subst live_pop[OF spec r ne, of "expanded_state ops s"]) simp_all
  show "size (live \<alpha> (expanded_state ops s) v) \<le> 1" if "v < numNodes G" for v
    using size_mset_mono[OF lp[of v]] state_okD(6)[OF ok that] by simp
  show "live \<alpha> (expanded_state ops s) v = {#}"
    if "v < numNodes G" "closed_v (expanded_state ops s) ! v" for v
    using lp[of v] state_okD(7)[OF ok that(1)] that(2) by simp
  show "\<not> closed_v (expanded_state ops s) ! goalNode G" using state_okD(8)[OF ok] by simp
qed

lemma state_ok_closed:
  fixes s :: "'q SearchState"
  assumes spec: "pq_spec ops \<alpha> rinv" and ok: "state_ok \<alpha> rinv G s"
    and ne: "\<not> pq_empty ops (open_pq s)"
    and ns: "\<not> exceeds (g (pq_top ops (open_pq s))) (dist_v s ! node (pq_top ops (open_pq s)))"
    and ng: "node (pq_top ops (open_pq s)) \<noteq> goalNode G"
  shows "state_ok \<alpha> rinv G (closed_state ops s)"
proof (rule state_okI)
  let ?cur = "pq_top ops (open_pq s)"
  have r: "rinv (open_pq s)" using ok by (rule state_okD)
  note top = pq_spec_top[OF spec r ne]
  note tl = top_live[OF spec ok ne ns]
  show "rinv (open_pq (closed_state ops s))" using top(3) by simp
  show "length (dist_v (closed_state ops s)) = numNodes G" using state_okD(2)[OF ok] by simp
  show "length (closed_v (closed_state ops s)) = numNodes G" using state_okD(3)[OF ok] by simp
  show "node e < numNodes G" if "e \<in># \<alpha> (open_pq (closed_state ops s))" for e
    using that top(4) state_okD(4)[OF ok] by (auto dest: in_diffD)
  show "\<not> improves (g e) (dist_v (closed_state ops s) ! node e)"
    if "e \<in># \<alpha> (open_pq (closed_state ops s))" for e
    using that top(4) state_okD(5)[OF ok] by (auto dest: in_diffD)
  have lp: "live \<alpha> (closed_state ops s) v = live \<alpha> s v -
      filter_mset (\<lambda>e. node e = v \<and> \<not> exceeds (g e) (dist_v s ! v)) {#?cur#}" for v
    by (rule live_pop[OF spec r ne]) simp_all
  have sub: "live \<alpha> (closed_state ops s) v \<subseteq># live \<alpha> s v" for v
    by (subst lp) simp
  show "size (live \<alpha> (closed_state ops s) v) \<le> 1" if "v < numNodes G" for v
    using size_mset_mono[OF sub[of v]] state_okD(6)[OF ok that] by simp
  show "live \<alpha> (closed_state ops s) v = {#}"
    if "v < numNodes G" "closed_v (closed_state ops s) ! v" for v
  proof (cases "v = node ?cur")
    case True
    then show ?thesis using lp[of v] tl(1) ns by simp
  next
    case False
    with that(2) have "closed_v s ! v" by simp
    with sub[of v] state_okD(7)[OF ok that(1)] show ?thesis by simp
  qed
  show "\<not> closed_v (closed_state ops s) ! goalNode G"
    using state_okD(8)[OF ok] ng by (simp add: nth_list_update)
qed

lemma state_ok_push:
  fixes s :: "'q SearchState"
  assumes spec: "pq_spec ops \<alpha> rinv" and ok: "state_ok \<alpha> rinv G s"
    and nbr: "nbr < numNodes G" and imp: "improves newG (dist_v s ! nbr)"
    and nc: "\<not> closed_v s ! nbr"
  shows "state_ok \<alpha> rinv G (push_nbr ops nbr newG newF s)"
proof (rule state_okI)
  let ?st = "\<lparr> node = nbr, g = newG, f = newF \<rparr>"
  let ?s' = "push_nbr ops nbr newG newF s"
  have r: "rinv (open_pq s)" using ok by (rule state_okD)
  note psh = pq_spec_push[OF spec r, of ?st]
  have a': "\<alpha> (open_pq ?s') = add_mset ?st (\<alpha> (open_pq s))" using psh by simp
  have ld: "nbr < length (dist_v s)" using nbr state_okD(2)[OF ok] by simp
  have old: "exceeds (g e) (Finite newG)" if "e \<in># \<alpha> (open_pq s)" "node e = nbr" for e
    using state_okD(5)[OF ok that(1)] that(2) imp by (cases "dist_v s ! nbr") auto
  show "rinv (open_pq ?s')" using psh by simp
  show "length (dist_v ?s') = numNodes G" using state_okD(2)[OF ok] by simp
  show "length (closed_v ?s') = numNodes G" using state_okD(3)[OF ok] by simp
  show "node e < numNodes G" if "e \<in># \<alpha> (open_pq ?s')" for e
    using that a' nbr state_okD(4)[OF ok] by auto
  show "\<not> improves (g e) (dist_v ?s' ! node e)" if "e \<in># \<alpha> (open_pq ?s')" for e
  proof (cases "node e = nbr")
    case True
    from that a' consider "e = ?st" | "e \<in># \<alpha> (open_pq s)" by auto
    then show ?thesis
    proof cases
      case 1
      have "g ?st = newG" "node ?st = nbr" by simp_all
      with 1 ld show ?thesis by simp
    next
      case 2
      from old[OF 2 True] True ld show ?thesis by simp
    qed
  next
    case False
    with that a' have "e \<in># \<alpha> (open_pq s)" by auto
    with state_okD(5)[OF ok this] False show ?thesis by simp
  qed
  have l_other: "live \<alpha> ?s' v = live \<alpha> s v" if "v \<noteq> nbr" for v
    using that a' by (auto simp: live_def)
  have l_nbr: "live \<alpha> ?s' nbr = {#?st#}"
  proof -
    have "filter_mset (\<lambda>e. node e = nbr \<and> \<not> exceeds (g e) (Finite newG)) (\<alpha> (open_pq s)) = {#}"
      using old by auto
    then show ?thesis using a' ld by (simp add: live_def)
  qed
  show "size (live \<alpha> ?s' v) \<le> 1" if "v < numNodes G" for v
    using l_other[of v] l_nbr state_okD(6)[OF ok that] by (cases "v = nbr") simp_all
  show "live \<alpha> ?s' v = {#}" if "v < numNodes G" "closed_v ?s' ! v" for v
    using l_other[of v] that nc state_okD(7)[OF ok that(1)] by (cases "v = nbr") auto
  show "\<not> closed_v ?s' ! goalNode G" using state_okD(8)[OF ok] by simp
qed

lemma valid_graph_adj:
  assumes "valid_graph G" "u < numNodes G" "e \<in> set (adjacencyList G ! u)"
  shows "fst e < numNodes G"
  using assms unfolding valid_graph_def by (metis nth_mem)

lemma heur_totalD: "heur_total G h \<Longrightarrow> v < numNodes G \<Longrightarrow> h v = Inr (hval h v)"
  by (simp add: heur_total_def)

lemma loop_body_ok [consumes 5, case_names stale goal expand]:
  fixes s :: "'q SearchState"
  assumes spec: "pq_spec ops \<alpha> rinv" and vg: "valid_graph G" and ht: "heur_total G h"
    and ok: "state_ok \<alpha> rinv G s" and ne: "\<not> pq_empty ops (open_pq s)"
  obtains (stale)
        "exceeds (g (pq_top ops (open_pq s))) (dist_v s ! node (pq_top ops (open_pq s)))"
        "loop_body ops G h s = Continue (stale_state ops s)"
    | (goal)
        "\<not> exceeds (g (pq_top ops (open_pq s))) (dist_v s ! node (pq_top ops (open_pq s)))"
        "node (pq_top ops (open_pq s)) = goalNode G"
        "loop_body ops G h s = Break (expanded_state ops s)"
    | (expand) s' where
        "\<not> exceeds (g (pq_top ops (open_pq s))) (dist_v s ! node (pq_top ops (open_pq s)))"
        "node (pq_top ops (open_pq s)) \<noteq> goalNode G"
        "explore ops h (g (pq_top ops (open_pq s)))
           (adjacencyList G ! node (pq_top ops (open_pq s))) (closed_state ops s) = Inr s'"
        "loop_body ops G h s = Continue s'"
        "state_ok \<alpha> rinv G s'"
proof -
  let ?cur = "pq_top ops (open_pq s)"
  have r: "rinv (open_pq s)" using ok by (rule state_okD)
  have mem: "?cur \<in># \<alpha> (open_pq s)" using pq_spec_top(1)[OF spec r ne] .
  then have lt: "node ?cur < numNodes G" using state_okD(4)[OF ok] by blast
  have expl: "\<exists>s'. explore ops h (g ?cur) (adjacencyList G ! node ?cur) (closed_state ops s) = Inr s'
      \<and> state_ok \<alpha> rinv G s'"
    if ns: "\<not> exceeds (g ?cur) (dist_v s ! node ?cur)" and ng: "node ?cur \<noteq> goalNode G"
  proof (rule explore_rule[where P = "state_ok \<alpha> rinv G" and N = "numNodes G"
        and E = "set (adjacencyList G ! node ?cur)" and hv = "hval h"])
    show "state_ok \<alpha> rinv G (closed_state ops s)"
      using state_ok_closed[OF spec ok ne ns ng] .
    show "set (adjacencyList G ! node ?cur) \<subseteq> set (adjacencyList G ! node ?cur)" by simp
    show "\<And>s. state_ok \<alpha> rinv G s \<Longrightarrow> length (dist_v s) = numNodes G \<and> length (closed_v s) = numNodes G"
      by (simp add: state_ok_def)
    show "\<forall>e\<in>set (adjacencyList G ! node ?cur). fst e < numNodes G"
      using valid_graph_adj[OF vg lt] by blast
    show "\<forall>v<numNodes G. h v = Inr (hval h v)" using ht by (simp add: heur_total_def)
    show "\<And>s nbr w. state_ok \<alpha> rinv G s \<Longrightarrow> (nbr, w) \<in> set (adjacencyList G ! node ?cur) \<Longrightarrow>
        nbr < numNodes G \<Longrightarrow> improves (g ?cur + w) (dist_v s ! nbr) \<Longrightarrow> \<not> closed_v s ! nbr \<Longrightarrow>
        state_ok \<alpha> rinv G (push_nbr ops nbr (g ?cur + w) (g ?cur + w + hval h nbr) s)"
      using state_ok_push[OF spec] by blast
  qed
  have ld: "node ?cur < length (dist_v s)" using lt state_okD(2)[OF ok] by simp
  have lc: "node ?cur < length (closed_v s)" using lt state_okD(3)[OF ok] by simp
  have la: "node ?cur < length (adjacencyList G)" using lt vg by (simp add: valid_graph_def)
  show ?thesis
  proof (cases "exceeds (g ?cur) (dist_v s ! node ?cur)")
    case True
    with ld have "loop_body ops G h s = Continue (stale_state ops s)"
      by (simp add: loop_body_def Let_def stale_state_def)
    with True show ?thesis by (rule stale)
  next
    case ns: False
    show ?thesis
    proof (cases "node ?cur = goalNode G")
      case True
      with ld ns have "loop_body ops G h s = Break (expanded_state ops s)"
        by (simp add: loop_body_def Let_def expanded_state_def)
      with ns True show ?thesis by (rule goal)
    next
      case ng: False
      from expl[OF ns ng] obtain s' where
        ex: "explore ops h (g ?cur) (adjacencyList G ! node ?cur) (closed_state ops s) = Inr s'"
        and ok': "state_ok \<alpha> rinv G s'" by blast
      have "loop_body ops G h s =
              (case explore ops h (g ?cur) (adjacencyList G ! node ?cur) (closed_state ops s) of
                 Inl e \<Rightarrow> Fail e | Inr s3 \<Rightarrow> Continue s3)"
        using ld ns ng lc la
        by (simp add: loop_body_def Let_def closed_state_def expanded_state_def)
      with ex have "loop_body ops G h s = Continue s'" by simp
      with ns ng ex ok' show ?thesis by (intro expand)
    qed
  qed
qed

lemma pending_closed:
  fixes s s' :: "'q SearchState"
  assumes "u < numNodes G" "length (closed_v s) = numNodes G" "\<not> closed_v s ! u"
    and "closed_v s' = (closed_v s)[u := True]"
  shows "pending G s = length (adjacencyList G ! u) + pending G s'"
proof -
  let ?A = "{v. v < numNodes G \<and> \<not> closed_v s ! v}"
  have "{v. v < numNodes G \<and> \<not> closed_v s' ! v} = ?A - {u}"
    using assms by (auto simp: nth_list_update)
  moreover have "finite ?A" "u \<in> ?A" using assms by auto
  ultimately show ?thesis
    unfolding pending_def by (simp add: sum.remove)
qed

lemma pending_cong:
  fixes s s' :: "'q SearchState"
  shows "closed_v s' = closed_v s \<Longrightarrow> pending G s' = pending G s"
  by (simp add: pending_def)

text \<open>Every pass that continues makes the measure smaller.\<close>

lemma loop_measure:
  fixes s :: "'q SearchState"
  assumes spec: "pq_spec ops \<alpha> rinv" and vg: "valid_graph G" and ht: "heur_total G h"
    and ok: "state_ok \<alpha> rinv G s" and ne: "\<not> pq_empty ops (open_pq s)"
    and c: "loop_body ops G h s = Continue s'"
  shows "state_ok \<alpha> rinv G s' \<and>
     size (\<alpha> (open_pq s')) + pending G s' < size (\<alpha> (open_pq s)) + pending G s"
proof -
  let ?cur = "pq_top ops (open_pq s)"
  have r: "rinv (open_pq s)" using ok by (rule state_okD)
  note top = pq_spec_top[OF spec r ne]
  have lt: "node ?cur < numNodes G" using top(1) state_okD(4)[OF ok] by blast
  have sz: "size (\<alpha> (pq_pop ops (open_pq s))) + 1 = size (\<alpha> (open_pq s))"
    using top(1,4) by (simp add: size_Diff_singleton size_mset_SucE) (metis Suc_pred nonempty_has_size empty_iff set_mset_empty)
  from spec vg ht ok ne show ?thesis
  proof (cases rule: loop_body_ok)
    case stale
    with c have s': "s' = stale_state ops s" by simp
    have "pending G s' = pending G s" unfolding s' by (rule pending_cong) simp
    with sz state_ok_stale[OF spec ok ne] show ?thesis by (simp add: s')
  next
    case goal
    with c show ?thesis by simp
  next
    case (expand s'')
    with c have [simp]: "s'' = s'" by simp
    have rc: "rinv (open_pq (closed_state ops s))" using top(3) by simp
    from explore_queue[OF spec rc expand(3)] obtain evs where evs:
      "length evs \<le> length (adjacencyList G ! node ?cur)"
      "\<alpha> (open_pq s') = \<alpha> (open_pq (closed_state ops s)) + mset evs" by auto
    from explore_frame[OF expand(3)] have "closed_v s' = closed_v (closed_state ops s)" by simp
    then have "pending G s' = pending G (closed_state ops s)" by (rule pending_cong)
    moreover have "pending G s = length (adjacencyList G ! node ?cur) + pending G (closed_state ops s)"
      by (rule pending_closed[OF lt state_okD(3)[OF ok] top_live(2)[OF spec ok ne expand(1)]]) simp
    ultimately show ?thesis using evs sz expand(5) by simp
  qed
qed

lemma reach_first:
  fixes s :: "'q SearchState"
  assumes "reach ops G h s1 s'" "\<not> pq_empty ops (open_pq s)" "loop_body ops G h s = Continue s1"
  shows "reach ops G h s s'"
  using assms
proof (induction rule: reach.induct)
  case reach_init
  then show ?case by (auto intro: reach.intros)
next
  case (reach_step t t')
  then show ?case by (auto intro: reach.reach_step)
qed

text \<open>The loop ends, and where it ends.\<close>

lemma astar_loop_ends:
  fixes s :: "'q SearchState"
  assumes spec: "pq_spec ops \<alpha> rinv" and vg: "valid_graph G" and ht: "heur_total G h"
    and ok: "state_ok \<alpha> rinv G s"
  shows "\<exists>sf s'. astar_loop ops G h s = Some (Inr sf) \<and> reach ops G h s s' \<and>
      (pq_empty ops (open_pq s') \<and> sf = s' \<or>
       \<not> pq_empty ops (open_pq s') \<and> loop_body ops G h s' = Break sf)"
  using ok
proof (induction "size (\<alpha> (open_pq s)) + pending G s" arbitrary: s rule: less_induct)
  case less
  show ?case
  proof (cases "pq_empty ops (open_pq s)")
    case True
    then have "astar_loop ops G h s = Some (Inr s)" by (subst astar_loop.simps) simp
    with True show ?thesis by (blast intro: reach_init)
  next
    case ne: False
    from spec vg ht less.prems ne show ?thesis
    proof (cases rule: loop_body_ok)
      case stale
      from loop_measure[OF spec vg ht less.prems ne stale(2)]
      have ok': "state_ok \<alpha> rinv G (stale_state ops s)"
        and m: "size (\<alpha> (open_pq (stale_state ops s))) + pending G (stale_state ops s)
           < size (\<alpha> (open_pq s)) + pending G s" by simp_all
      from less.hyps[OF m ok'] obtain sf s' where
        *: "astar_loop ops G h (stale_state ops s) = Some (Inr sf)"
           "reach ops G h (stale_state ops s) s'"
           "pq_empty ops (open_pq s') \<and> sf = s' \<or>
            \<not> pq_empty ops (open_pq s') \<and> loop_body ops G h s' = Break sf" by blast
      have "astar_loop ops G h s = Some (Inr sf)"
        using ne stale(2) *(1) by (subst astar_loop.simps) simp
      with reach_first[OF *(2) ne stale(2)] *(3) show ?thesis by blast
    next
      case goal
      have "astar_loop ops G h s = Some (Inr (expanded_state ops s))"
        using ne goal(3) by (subst astar_loop.simps) simp
      with ne goal(3) show ?thesis by (blast intro: reach_init)
    next
      case (expand s1)
      from loop_measure[OF spec vg ht less.prems ne expand(4)]
      have ok': "state_ok \<alpha> rinv G s1"
        and m: "size (\<alpha> (open_pq s1)) + pending G s1 < size (\<alpha> (open_pq s)) + pending G s"
        by simp_all
      from less.hyps[OF m ok'] obtain sf s' where
        *: "astar_loop ops G h s1 = Some (Inr sf)"
           "reach ops G h s1 s'"
           "pq_empty ops (open_pq s') \<and> sf = s' \<or>
            \<not> pq_empty ops (open_pq s') \<and> loop_body ops G h s' = Break sf" by blast
      have "astar_loop ops G h s = Some (Inr sf)"
        using ne expand(4) *(1) by (subst astar_loop.simps) simp
      with reach_first[OF *(2) ne expand(4)] *(3) show ?thesis by blast
    qed
  qed
qed

lemma init_search_ok:
  assumes spec: "pq_spec ops \<alpha> rinv" and vg: "valid_graph G" and ht: "heur_total G h"
  obtains s0 :: "'q SearchState" where "init_search ops G h = Inr s0"
    "state_ok \<alpha> rinv G s0"
    "\<alpha> (open_pq s0) = {#\<lparr> node = startNode G, g = 0, f = hval h (startNode G) \<rparr>#}"
    "dist_v s0 = (replicate (numNodes G) Infinity)[startNode G := Finite 0]"
    "closed_v s0 = replicate (numNodes G) False"
    "nodesExpanded s0 = 0" "steps s0 = 0"
    "trace s0 = [Push \<lparr> node = startNode G, g = 0, f = hval h (startNode G) \<rparr>]"
proof -
  let ?st = "\<lparr> node = startNode G, g = 0, f = hval h (startNode G) \<rparr>"
  let ?s0 = "\<lparr> open_pq = pq_push ops ?st (pq_new ops),
                   dist_v = (replicate (numNodes G) Infinity)[startNode G := Finite 0],
                   closed_v = replicate (numNodes G) False,
                   nodesExpanded = 0, steps = 0, trace = [Push ?st] \<rparr>"
  have st: "startNode G < numNodes G" and gl: "goalNode G < numNodes G"
    using vg by (simp_all add: valid_graph_def)
  have i: "init_search ops G h = Inr ?s0"
    using st heur_totalD[OF ht st] by (simp add: init_search_def Let_def)
  from pq_spec_new[OF spec] pq_spec_push[OF spec, of "pq_new ops" ?st]
  have q: "rinv (open_pq ?s0)" "\<alpha> (open_pq ?s0) = {#?st#}" by simp_all
  have ok: "state_ok \<alpha> rinv G ?s0"
    unfolding state_ok_def live_def q using q(1) st gl by (auto simp: nth_list_update)
  show ?thesis
    by (rule that[OF i ok q(2)]) simp_all
qed

text \<open>
  The induction principle for properties of the search state: \<open>I\<close> is to hold at the head
  of the loop, \<open>J cur\<close> while the neighbours of \<open>cur\<close> are explored.
\<close>

lemma reach_invariant:
  fixes s0 s :: "'q SearchState"
  assumes spec: "pq_spec ops \<alpha> rinv" and vg: "valid_graph G" and ht: "heur_total G h"
    and r: "reach ops G h s0 s"
    and ok0: "state_ok \<alpha> rinv G s0" and I0: "I s0"
    and Istale: "\<And>s. state_ok \<alpha> rinv G s \<Longrightarrow> I s \<Longrightarrow> \<not> pq_empty ops (open_pq s) \<Longrightarrow>
        exceeds (g (pq_top ops (open_pq s))) (dist_v s ! node (pq_top ops (open_pq s))) \<Longrightarrow>
        I (stale_state ops s)"
    and Iclose: "\<And>s. state_ok \<alpha> rinv G s \<Longrightarrow> I s \<Longrightarrow> \<not> pq_empty ops (open_pq s) \<Longrightarrow>
        \<not> exceeds (g (pq_top ops (open_pq s))) (dist_v s ! node (pq_top ops (open_pq s))) \<Longrightarrow>
        node (pq_top ops (open_pq s)) \<noteq> goalNode G \<Longrightarrow>
        J (pq_top ops (open_pq s)) (closed_state ops s)"
    and Jpush: "\<And>cur s nbr w. state_ok \<alpha> rinv G s \<Longrightarrow> J cur s \<Longrightarrow> node cur < numNodes G \<Longrightarrow>
        (nbr, w) \<in> set (adjacencyList G ! node cur) \<Longrightarrow> nbr < numNodes G \<Longrightarrow>
        improves (g cur + w) (dist_v s ! nbr) \<Longrightarrow> \<not> closed_v s ! nbr \<Longrightarrow>
        J cur (push_nbr ops nbr (g cur + w) (g cur + w + hval h nbr) s)"
    and Ifin: "\<And>cur s. state_ok \<alpha> rinv G s \<Longrightarrow> J cur s \<Longrightarrow> node cur < numNodes G \<Longrightarrow>
        (\<forall>e \<in> set (adjacencyList G ! node cur).
           closed_v s ! fst e \<or> \<not> improves (g cur + snd e) (dist_v s ! fst e)) \<Longrightarrow> I s"
  shows "state_ok \<alpha> rinv G s \<and> I s"
  using r
proof (induction rule: reach.induct)
  case reach_init
  show ?case using ok0 I0 by simp
next
  case (reach_step s s')
  then have ok: "state_ok \<alpha> rinv G s" and I: "I s" by simp_all
  note ne = reach_step.hyps(2) and c = reach_step.hyps(3)
  let ?cur = "pq_top ops (open_pq s)"
  have rq: "rinv (open_pq s)" using ok by (rule state_okD)
  have lt: "node ?cur < numNodes G" using pq_spec_top(1)[OF spec rq ne] state_okD(4)[OF ok] by blast
  from spec vg ht ok ne show ?case
  proof (cases rule: loop_body_ok)
    case stale
    with c have "s' = stale_state ops s" by simp
    with state_ok_stale[OF spec ok ne] Istale[OF ok I ne stale(1)] show ?thesis by simp
  next
    case goal
    with c show ?thesis by simp
  next
    case (expand s'')
    with c have [simp]: "s'' = s'" by simp
    let ?P = "\<lambda>t. state_ok \<alpha> rinv G t \<and> J ?cur t"
    have "\<exists>t. explore ops h (g ?cur) (adjacencyList G ! node ?cur) (closed_state ops s) = Inr t \<and> ?P t"
    proof (rule explore_rule[where P = ?P and N = "numNodes G"
          and E = "set (adjacencyList G ! node ?cur)" and hv = "hval h"])
      show "?P (closed_state ops s)"
        using state_ok_closed[OF spec ok ne expand(1,2)] Iclose[OF ok I ne expand(1,2)] by simp
      show "set (adjacencyList G ! node ?cur) \<subseteq> set (adjacencyList G ! node ?cur)" by simp
      show "\<And>t. ?P t \<Longrightarrow> length (dist_v t) = numNodes G \<and> length (closed_v t) = numNodes G"
        by (simp add: state_ok_def)
      show "\<forall>e\<in>set (adjacencyList G ! node ?cur). fst e < numNodes G"
        using valid_graph_adj[OF vg lt] by blast
      show "\<forall>v<numNodes G. h v = Inr (hval h v)" using ht by (simp add: heur_total_def)
      show "\<And>t nbr w. ?P t \<Longrightarrow> (nbr, w) \<in> set (adjacencyList G ! node ?cur) \<Longrightarrow>
          nbr < numNodes G \<Longrightarrow> improves (g ?cur + w) (dist_v t ! nbr) \<Longrightarrow> \<not> closed_v t ! nbr \<Longrightarrow>
          ?P (push_nbr ops nbr (g ?cur + w) (g ?cur + w + hval h nbr) t)"
        using state_ok_push[OF spec] Jpush lt by blast
    qed
    with expand(3) have J: "J ?cur s'" by simp
    have cl: "closed_v s' = closed_v (closed_state ops s)"
      using explore_frame[OF expand(3)] by simp
    have "\<forall>e \<in> set (adjacencyList G ! node ?cur).
           closed_v s' ! fst e \<or> \<not> improves (g ?cur + snd e) (dist_v s' ! fst e)"
      using explore_relaxed[OF expand(3)] cl by auto
    from Ifin[OF expand(5)[simplified] J lt this] expand(5) show ?thesis by simp
  qed
qed

lemma min_pushed_snoc [simp]:
  "min_pushed (t @ [Stale e]) v = min_pushed t v"
  "min_pushed (t @ [Expand e]) v = min_pushed t v"
  "node e \<noteq> v \<Longrightarrow> min_pushed (t @ [Push e]) v = min_pushed t v"
  by (simp_all add: min_pushed_def)

lemma Min_insert_less:
  fixes x :: real
  assumes "finite A" "A \<noteq> {}" "x < Min A"
  shows "Min (insert x A) = x"
proof -
  have "Min (insert x A) = min x (Min A)" using assms(1,2) by (rule Min_insert)
  with assms(3) show ?thesis by (simp add: min_def)
qed

lemma min_pushed_push:
  assumes "improves (g e) (min_pushed t (node e))"
  shows "min_pushed (t @ [Push e]) (node e) = Finite (g e)"
proof (cases "filter (\<lambda>x. node x = node e) (pushed_of t) = []")
  case True
  then show ?thesis by (simp add: min_pushed_def)
next
  case False
  define gs where "gs = map g (filter (\<lambda>x. node x = node e) (pushed_of t))"
  from False have ne: "gs \<noteq> []" by (simp add: gs_def)
  have m: "min_pushed t (node e) = Finite (Min (set gs))"
    using ne unfolding min_pushed_def gs_def[symmetric] by (simp add: Let_def)
  with assms have "g e < Min (set gs)" by simp
  then have "Min (insert (g e) (set gs)) = g e"
    using ne by (intro Min_insert_less) simp_all
  moreover have "min_pushed (t @ [Push e]) (node e) = Finite (Min (set (gs @ [g e])))"
    unfolding min_pushed_def gs_def by (simp add: Let_def)
  ultimately show ?thesis by simp
qed

lemma never_repushed_snoc [simp]:
  "never_repushed (t @ [Stale e]) = never_repushed t"
  "never_repushed (t @ [Expand e]) = never_repushed t"
  "never_repushed (t @ [Push e]) =
     (never_repushed t \<and> node e \<notin> set (map node (expanded_of t)))"
  by (induction t rule: never_repushed.induct) auto

lemma never_repushedD:
  "never_repushed (t1 @ Expand c # t2) \<Longrightarrow> Push e \<in> set t2 \<Longrightarrow> node e \<noteq> node c"
proof (induction t1 rule: never_repushed.induct)
  case 1
  have "Push e \<in> set t \<Longrightarrow> e \<in> set (pushed_of t)" for t
    by (induction t rule: pushed_of.induct) auto
  with 1 show ?case by auto
qed auto

lemma trace_okD:
  assumes "trace_ok \<alpha> G s"
  shows "nodesExpanded s = length (expanded_of (trace s))"
    "steps s = length (popped_of (trace s))"
    "mset (pushed_of (trace s)) = \<alpha> (open_pq s) + mset (popped_of (trace s))"
    "distinct (map node (expanded_of (trace s)))"
    "set (map node (expanded_of (trace s))) = {v. v < numNodes G \<and> closed_v s ! v}"
    "\<And>v. v < numNodes G \<Longrightarrow> dist_v s ! v = min_pushed (trace s) v"
    "never_repushed (trace s)"
  using assms by (simp_all add: trace_ok_def)

lemma trace_ok_stale:
  fixes s :: "'q SearchState"
  assumes spec: "pq_spec ops \<alpha> rinv" and ok: "state_ok \<alpha> rinv G s"
    and ne: "\<not> pq_empty ops (open_pq s)" and t: "trace_ok \<alpha> G s"
  shows "trace_ok \<alpha> G (stale_state ops s)"
proof -
  have r: "rinv (open_pq s)" using ok by (rule state_okD)
  note top = pq_spec_top[OF spec r ne]
  have "mset (pushed_of (trace s)) =
      \<alpha> (pq_pop ops (open_pq s)) + add_mset (pq_top ops (open_pq s)) (mset (popped_of (trace s)))"
    using trace_okD(3)[OF t] top(1,4) by simp
  then show ?thesis using t by (simp add: trace_ok_def)
qed

lemma trace_ok_expanded:
  fixes s :: "'q SearchState"
  assumes spec: "pq_spec ops \<alpha> rinv" and ok: "state_ok \<alpha> rinv G s"
    and ne: "\<not> pq_empty ops (open_pq s)" and t: "trace_ok \<alpha> G s"
    and ns: "\<not> exceeds (g (pq_top ops (open_pq s))) (dist_v s ! node (pq_top ops (open_pq s)))"
  shows "nodesExpanded (expanded_state ops s) = length (expanded_of (trace (expanded_state ops s)))"
    "steps (expanded_state ops s) = length (popped_of (trace (expanded_state ops s)))"
    "mset (pushed_of (trace (expanded_state ops s))) =
       \<alpha> (open_pq (expanded_state ops s)) + mset (popped_of (trace (expanded_state ops s)))"
    "distinct (map node (expanded_of (trace (expanded_state ops s))))"
    "set (map node (expanded_of (trace (expanded_state ops s)))) =
       insert (node (pq_top ops (open_pq s))) {v. v < numNodes G \<and> closed_v s ! v}"
    "\<And>v. v < numNodes G \<Longrightarrow>
       dist_v (expanded_state ops s) ! v = min_pushed (trace (expanded_state ops s)) v"
    "never_repushed (trace (expanded_state ops s))"
proof -
  have r: "rinv (open_pq s)" using ok by (rule state_okD)
  note top = pq_spec_top[OF spec r ne]
  note tl = top_live[OF spec ok ne ns]
  show "mset (pushed_of (trace (expanded_state ops s))) =
       \<alpha> (open_pq (expanded_state ops s)) + mset (popped_of (trace (expanded_state ops s)))"
    using trace_okD(3)[OF t] top(1,4) by simp
  show "distinct (map node (expanded_of (trace (expanded_state ops s))))"
    using trace_okD(4,5)[OF t] tl(2) by simp
qed (use t in \<open>simp_all add: trace_ok_def\<close>)

lemma trace_ok_closed:
  fixes s :: "'q SearchState"
  assumes spec: "pq_spec ops \<alpha> rinv" and ok: "state_ok \<alpha> rinv G s"
    and ne: "\<not> pq_empty ops (open_pq s)" and t: "trace_ok \<alpha> G s"
    and ns: "\<not> exceeds (g (pq_top ops (open_pq s))) (dist_v s ! node (pq_top ops (open_pq s)))"
  shows "trace_ok \<alpha> G (closed_state ops s)"
proof -
  let ?cur = "pq_top ops (open_pq s)"
  have r: "rinv (open_pq s)" using ok by (rule state_okD)
  note top = pq_spec_top[OF spec r ne]
  have lt: "node ?cur < numNodes G" using top(1) state_okD(4)[OF ok] by blast
  note e = trace_ok_expanded[OF spec ok ne t ns]
  have "{v. v < numNodes G \<and> (closed_v s)[node ?cur := True] ! v} =
      insert (node ?cur) {v. v < numNodes G \<and> closed_v s ! v}"
    using lt state_okD(3)[OF ok] by (auto simp: nth_list_update)
  then show ?thesis
    unfolding trace_ok_def using e by simp
qed

lemma trace_ok_push:
  fixes s :: "'q SearchState"
  assumes spec: "pq_spec ops \<alpha> rinv" and ok: "state_ok \<alpha> rinv G s"
    and t: "trace_ok \<alpha> G s"
    and nbr: "nbr < numNodes G" and imp: "improves newG (dist_v s ! nbr)"
    and nc: "\<not> closed_v s ! nbr"
  shows "trace_ok \<alpha> G (push_nbr ops nbr newG newF s)"
proof -
  let ?st = "\<lparr> node = nbr, g = newG, f = newF \<rparr>"
  have r: "rinv (open_pq s)" using ok by (rule state_okD)
  note psh = pq_spec_push[OF spec r, of ?st]
  have ld: "nbr < length (dist_v s)" using nbr state_okD(2)[OF ok] by simp
  have "improves (g ?st) (min_pushed (trace s) (node ?st))"
    using imp trace_okD(6)[OF t nbr] by simp
  from min_pushed_push[OF this] have m: "min_pushed (trace s @ [Push ?st]) nbr = Finite newG"
    by simp
  have "dist_v (push_nbr ops nbr newG newF s) ! v = min_pushed (trace (push_nbr ops nbr newG newF s)) v"
    if "v < numNodes G" for v
    using m trace_okD(6)[OF t that] ld by (cases "v = nbr") simp_all
  moreover have "nbr \<notin> set (map node (expanded_of (trace s)))"
    using trace_okD(5)[OF t] nc by simp
  ultimately show ?thesis
    using t psh unfolding trace_ok_def by simp
qed

lemma trace_ok_reach:
  fixes s0 s :: "'q SearchState"
  assumes spec: "pq_spec ops \<alpha> rinv" and vg: "valid_graph G" and ht: "heur_total G h"
    and r: "reach ops G h s0 s"
    and ok0: "state_ok \<alpha> rinv G s0" and t0: "trace_ok \<alpha> G s0"
  shows "state_ok \<alpha> rinv G s \<and> trace_ok \<alpha> G s"
proof (rule reach_invariant[OF spec vg ht r ok0, where I = "trace_ok \<alpha> G"
      and J = "\<lambda>cur. trace_ok \<alpha> G"])
  show "trace_ok \<alpha> G s0" by (rule t0)
  show "\<And>s. state_ok \<alpha> rinv G s \<Longrightarrow> trace_ok \<alpha> G s \<Longrightarrow> \<not> pq_empty ops (open_pq s) \<Longrightarrow>
        exceeds (g (pq_top ops (open_pq s))) (dist_v s ! node (pq_top ops (open_pq s))) \<Longrightarrow>
        trace_ok \<alpha> G (stale_state ops s)"
    using trace_ok_stale[OF spec] by blast
  show "\<And>s. state_ok \<alpha> rinv G s \<Longrightarrow> trace_ok \<alpha> G s \<Longrightarrow> \<not> pq_empty ops (open_pq s) \<Longrightarrow>
        \<not> exceeds (g (pq_top ops (open_pq s))) (dist_v s ! node (pq_top ops (open_pq s))) \<Longrightarrow>
        node (pq_top ops (open_pq s)) \<noteq> goalNode G \<Longrightarrow>
        trace_ok \<alpha> G (closed_state ops s)"
    using trace_ok_closed[OF spec] by blast
  show "\<And>cur s nbr w. state_ok \<alpha> rinv G s \<Longrightarrow> trace_ok \<alpha> G s \<Longrightarrow> node cur < numNodes G \<Longrightarrow>
        (nbr, w) \<in> set (adjacencyList G ! node cur) \<Longrightarrow> nbr < numNodes G \<Longrightarrow>
        improves (g cur + w) (dist_v s ! nbr) \<Longrightarrow> \<not> closed_v s ! nbr \<Longrightarrow>
        trace_ok \<alpha> G (push_nbr ops nbr (g cur + w) (g cur + w + hval h nbr) s)"
    using trace_ok_push[OF spec] by blast
qed

lemma trace_ok_init:
  assumes "\<alpha> (open_pq s0) = {#\<lparr> node = startNode G, g = 0, f = x \<rparr>#}"
    "dist_v s0 = (replicate (numNodes G) Infinity)[startNode G := Finite 0]"
    "closed_v s0 = replicate (numNodes G) False"
    "nodesExpanded s0 = 0" "steps s0 = 0"
    "trace s0 = [Push \<lparr> node = startNode G, g = 0, f = x \<rparr>]"
  shows "trace_ok \<alpha> G s0"
  using assms by (auto simp: trace_ok_def min_pushed_def nth_list_update)

lemma heuristic_total: "valid_graph G \<Longrightarrow> heur_total G (heuristic G)"
  by (simp add: heur_total_def heuristic_def hval_def valid_graph_def Let_def)

lemma zero_heuristic_total: "heur_total G zero_heuristic"
  by (simp add: heur_total_def zero_heuristic_def hval_def)

text \<open>
  A search on a valid graph returns; the state it returns is either a state at the head
  of the loop with an empty queue, or the state of the \<^verbatim>\<open>break\<close> taken from one whose top
  entry is a fresh entry of the goal.
\<close>

lemma search_ends:
  fixes ops :: "'q pq_ops"
  assumes spec: "pq_spec ops \<alpha> rinv" and vg: "valid_graph G" and ht: "heur_total G h"
  obtains s0 s' sf where
    "init_search ops G h = Inr s0" "search ops G h = Some (Inr sf)"
    "state_ok \<alpha> rinv G s0" "trace_ok \<alpha> G s0"
    "reach ops G h s0 s'" "state_ok \<alpha> rinv G s'" "trace_ok \<alpha> G s'"
    "pq_empty ops (open_pq s') \<and> sf = s' \<or>
     \<not> pq_empty ops (open_pq s') \<and>
     \<not> exceeds (g (pq_top ops (open_pq s'))) (dist_v s' ! node (pq_top ops (open_pq s'))) \<and>
     node (pq_top ops (open_pq s')) = goalNode G \<and> sf = expanded_state ops s'"
proof -
  from spec vg ht obtain s0 :: "'q SearchState" where s0:
    "init_search ops G h = Inr s0" "state_ok \<alpha> rinv G s0"
    "\<alpha> (open_pq s0) = {#\<lparr> node = startNode G, g = 0, f = hval h (startNode G) \<rparr>#}"
    "dist_v s0 = (replicate (numNodes G) Infinity)[startNode G := Finite 0]"
    "closed_v s0 = replicate (numNodes G) False"
    "nodesExpanded s0 = 0" "steps s0 = 0"
    "trace s0 = [Push \<lparr> node = startNode G, g = 0, f = hval h (startNode G) \<rparr>]"
    by (rule init_search_ok)
  have t0: "trace_ok \<alpha> G s0" using s0(3-8) by (rule trace_ok_init)
  from astar_loop_ends[OF spec vg ht s0(2)] obtain sf s' where e:
    "astar_loop ops G h s0 = Some (Inr sf)" "reach ops G h s0 s'"
    "pq_empty ops (open_pq s') \<and> sf = s' \<or>
       \<not> pq_empty ops (open_pq s') \<and> loop_body ops G h s' = Break sf" by blast
  from trace_ok_reach[OF spec vg ht e(2) s0(2) t0]
  have ok': "state_ok \<alpha> rinv G s'" and t': "trace_ok \<alpha> G s'" by simp_all
  have sr: "search ops G h = Some (Inr sf)" using s0(1) e(1) by (simp add: search_def)
  have "pq_empty ops (open_pq s') \<and> sf = s' \<or>
     \<not> pq_empty ops (open_pq s') \<and>
     \<not> exceeds (g (pq_top ops (open_pq s'))) (dist_v s' ! node (pq_top ops (open_pq s'))) \<and>
     node (pq_top ops (open_pq s')) = goalNode G \<and> sf = expanded_state ops s'"
  proof (cases "pq_empty ops (open_pq s')")
    case True
    with e(3) show ?thesis by simp
  next
    case ne: False
    with e(3) have b: "loop_body ops G h s' = Break sf" by simp
    from spec vg ht ok' ne show ?thesis
    proof (cases rule: loop_body_ok)
      case stale
      with b show ?thesis by simp
    next
      case goal
      with b ne show ?thesis by simp
    next
      case (expand s'')
      with b show ?thesis by simp
    qed
  qed
  with s0(1) sr s0(2) t0 e(2) ok' t' show ?thesis by (rule that)
qed

lemma astar_loop_reach:
  fixes s0 s :: "'q SearchState"
  assumes "reach ops G h s0 s"
  shows "astar_loop ops G h s0 = astar_loop ops G h s"
  using assms
proof (induction rule: reach.induct)
  case reach_init
  show ?case by simp
next
  case (reach_step s s')
  have "astar_loop ops G h s = astar_loop ops G h s'"
    using reach_step.hyps(2,3) by (subst astar_loop.simps) simp
  with reach_step.IH show ?case by simp
qed

lemma expanded_le_popped: "length (expanded_of t) \<le> length (popped_of t)"
  by (induction t rule: expanded_of.induct) auto

lemma popped_le_pushed:
  assumes "mset (pushed_of t) = A + mset (popped_of t)"
  shows "length (popped_of t) \<le> length (pushed_of t)"
proof -
  have "size (mset (pushed_of t)) = size A + size (mset (popped_of t))"
    using assms by simp
  then show ?thesis by simp
qed

lemma distinct_bounded_length:
  assumes "distinct xs" "\<forall>x \<in> set xs. x < (n::nat)"
  shows "length xs \<le> n"
proof -
  have "card (set xs) \<le> card {..<n}"
    using assms(2) by (intro card_mono) auto
  with assms(1) show ?thesis by (simp add: distinct_card)
qed

lemma numAdjEntries_sum:
  assumes "length (adjacencyList G) = numNodes G"
  shows "numAdjEntries G = (\<Sum>v \<in> {v. v < numNodes G}. length (adjacencyList G ! v))"
proof -
  have "{v. v < numNodes G} = {0..<length (adjacencyList G)}" using assms by auto
  then show ?thesis
    unfolding numAdjEntries_def by (simp add: sum_list_sum_nth)
qed

lemma add_edges_count:
  assumes "add_edges es adj = Inr adj'"
  shows "length adj' = length adj \<and>
     sum_list (map length adj') = sum_list (map length adj) + 2 * length es"
  using assms
proof (induction es arbitrary: adj)
  case Nil
  then show ?case by simp
next
  case (Cons e es)
  obtain u v w where e: "e = (u, v, w)" by (cases e)
  let ?adj1 = "adj[u := adj ! u @ [(v, w)]]"
  let ?adj2 = "?adj1[v := ?adj1 ! v @ [(u, w)]]"
  from Cons.prems e have u: "u < length adj" and v: "v < length adj"
    and r: "add_edges es ?adj2 = Inr adj'"
    by (auto simp: Let_def split: if_splits)
  have one: "sum_list (map length (xs[i := xs ! i @ [x]])) = sum_list (map length xs) + 1"
    if "i < length xs" for xs :: "(nat \<times> real) list list" and i x
    using that by (simp add: map_update sum_list_update)
  have "sum_list (map length ?adj2) = sum_list (map length adj) + 2"
    using one[of u adj "(v, w)"] one[of v ?adj1 "(u, w)"] u v by simp
  with Cons.IH[OF r] show ?case by simp
qed

lemma add_edges_valid:
  assumes "add_edges es adj = Inr adj'" "\<forall>l \<in> set adj. \<forall>e \<in> set l. fst e < length adj"
  shows "\<forall>l \<in> set adj'. \<forall>e \<in> set l. fst e < length adj'"
  using assms
proof (induction es arbitrary: adj)
  case Nil
  then show ?case by simp
next
  case (Cons e es)
  obtain u v w where e: "e = (u, v, w)" by (cases e)
  let ?adj1 = "adj[u := adj ! u @ [(v, w)]]"
  let ?adj2 = "?adj1[v := ?adj1 ! v @ [(u, w)]]"
  from Cons.prems e have u: "u < length adj" and v: "v < length adj"
    and r: "add_edges es ?adj2 = Inr adj'"
    by (auto simp: Let_def split: if_splits)
  have upd: "\<forall>l \<in> set (xs[i := y]). Q l" if "\<forall>l \<in> set xs. Q l" "Q y"
    for xs :: "(nat \<times> real) list list" and i y Q
    using that set_update_subset_insert[of xs i y] by auto
  let ?Q = "\<lambda>l :: (nat \<times> real) list. \<forall>e \<in> set l. fst e < length adj"
  have "?Q (adj ! u)" using Cons.prems(2) u nth_mem by blast
  then have "?Q (adj ! u @ [(v, w)])" using v by simp
  from upd[of adj ?Q, OF Cons.prems(2) this] have 1: "\<forall>l \<in> set ?adj1. ?Q l" .
  have "?adj1 ! v \<in> set ?adj1" using v by (intro nth_mem) simp
  with 1 have "?Q (?adj1 ! v)" by blast
  then have "?Q (?adj1 ! v @ [(u, w)])" using u by simp
  from upd[of ?adj1 ?Q, OF 1 this] have "\<forall>l \<in> set ?adj2. ?Q l" .
  then have "\<forall>l \<in> set ?adj2. \<forall>e \<in> set l. fst e < length ?adj2" by simp
  from Cons.IH[OF r this] show ?case .
qed

text \<open>The pushes so far are paid for by the start entry and the entries of closed nodes.\<close>

lemma pushes_bounded:
  fixes s0 s :: "'q SearchState"
  assumes spec: "pq_spec ops \<alpha> rinv" and vg: "valid_graph G" and ht: "heur_total G h"
    and r: "reach ops G h s0 s"
    and ok0: "state_ok \<alpha> rinv G s0"
    and b0: "length (pushed_of (trace s0)) + pending G s0 \<le> 1 + numAdjEntries G"
  shows "state_ok \<alpha> rinv G s \<and> length (pushed_of (trace s)) + pending G s \<le> 1 + numAdjEntries G"
  using r
proof (induction rule: reach.induct)
  case reach_init
  show ?case using ok0 b0 by simp
next
  case (reach_step s s')
  then have ok: "state_ok \<alpha> rinv G s"
    and b: "length (pushed_of (trace s)) + pending G s \<le> 1 + numAdjEntries G" by simp_all
  note ne = reach_step.hyps(2) and c = reach_step.hyps(3)
  let ?cur = "pq_top ops (open_pq s)"
  have rq: "rinv (open_pq s)" using ok by (rule state_okD)
  note top = pq_spec_top[OF spec rq ne]
  have lt: "node ?cur < numNodes G" using top(1) state_okD(4)[OF ok] by blast
  from spec vg ht ok ne show ?case
  proof (cases rule: loop_body_ok)
    case stale
    with c have s': "s' = stale_state ops s" by simp
    have "pending G s' = pending G s" unfolding s' by (rule pending_cong) simp
    with b state_ok_stale[OF spec ok ne] show ?thesis by (simp add: s')
  next
    case goal
    with c show ?thesis by simp
  next
    case (expand s'')
    with c have [simp]: "s'' = s'" by simp
    have rc: "rinv (open_pq (closed_state ops s))" using top(3) by simp
    from explore_queue[OF spec rc expand(3)] obtain evs where evs:
      "trace s' = trace (closed_state ops s) @ map Push evs"
      "length evs \<le> length (adjacencyList G ! node ?cur)" by auto
    from explore_frame[OF expand(3)] have "closed_v s' = closed_v (closed_state ops s)" by simp
    then have "pending G s' = pending G (closed_state ops s)" by (rule pending_cong)
    moreover have "pending G s = length (adjacencyList G ! node ?cur) + pending G (closed_state ops s)"
      by (rule pending_closed[OF lt state_okD(3)[OF ok] top_live(2)[OF spec ok ne expand(1)]]) simp
    ultimately show ?thesis using evs b expand(5) by simp
  qed
qed

lemma pending_init:
  fixes s0 :: "'q SearchState"
  assumes "valid_graph G" "closed_v s0 = replicate (numNodes G) False"
  shows "pending G s0 = numAdjEntries G"
proof -
  have "length (adjacencyList G) = numNodes G" using assms(1) by (simp add: valid_graph_def)
  from numAdjEntries_sum[OF this] show ?thesis
    unfolding pending_def assms(2)
    by (intro sum.cong[THEN trans, OF _ _ sym]) auto
qed

lemma search_visited:
  fixes ops :: "'q pq_ops"
  assumes spec: "pq_spec ops \<alpha> rinv" and vg: "valid_graph G" and ht: "heur_total G h"
  obtains s0 sf where "init_search ops G h = Inr s0" "search ops G h = Some (Inr sf)"
    "visited ops G h s0 sf"
proof -
  from spec vg ht obtain s0 :: "'q SearchState" where s0:
    "init_search ops G h = Inr s0" "state_ok \<alpha> rinv G s0"
    by (rule init_search_ok)
  from astar_loop_ends[OF spec vg ht s0(2)] obtain sf s' where e:
    "astar_loop ops G h s0 = Some (Inr sf)" "reach ops G h s0 s'"
    "pq_empty ops (open_pq s') \<and> sf = s' \<or>
       \<not> pq_empty ops (open_pq s') \<and> loop_body ops G h s' = Break sf" by blast
  have "search ops G h = Some (Inr sf)" using s0(1) e(1) by (simp add: search_def)
  moreover have "visited ops G h s0 sf" using e(2,3) unfolding visited_def by blast
  ultimately show ?thesis using s0(1) by (rule that[rotated])
qed

text \<open>What holds in every state a search on a valid graph visits.\<close>

lemma visited_facts:
  fixes s0 s :: "'q SearchState"
  assumes spec: "pq_spec ops \<alpha> rinv" and vg: "valid_graph G" and ht: "heur_total G h"
    and i: "init_search ops G h = Inr s0" and v: "visited ops G h s0 s"
  shows "state_ok \<alpha> rinv G s"
    and "nodesExpanded s = length (expanded_of (trace s))"
    and "steps s = length (popped_of (trace s))"
    and "mset (pushed_of (trace s)) = \<alpha> (open_pq s) + mset (popped_of (trace s))"
    and "distinct (map node (expanded_of (trace s)))"
    and "\<forall>c \<in> set (expanded_of (trace s)). node c < numNodes G"
    and "\<forall>v < numNodes G. dist_v s ! v = min_pushed (trace s) v"
    and "never_repushed (trace s)"
    and "length (pushed_of (trace s)) \<le> 1 + numAdjEntries G"
proof -
  from spec vg ht obtain s0' :: "'q SearchState" where s0:
    "init_search ops G h = Inr s0'" "state_ok \<alpha> rinv G s0'"
    "\<alpha> (open_pq s0') = {#\<lparr> node = startNode G, g = 0, f = hval h (startNode G) \<rparr>#}"
    "dist_v s0' = (replicate (numNodes G) Infinity)[startNode G := Finite 0]"
    "closed_v s0' = replicate (numNodes G) False"
    "nodesExpanded s0' = 0" "steps s0' = 0"
    "trace s0' = [Push \<lparr> node = startNode G, g = 0, f = hval h (startNode G) \<rparr>]"
    by (rule init_search_ok)
  from i s0(1) have [simp]: "s0' = s0" by simp
  have t0: "trace_ok \<alpha> G s0" using s0(3-8) by (intro trace_ok_init) simp_all
  have ok0: "state_ok \<alpha> rinv G s0" using s0(2) by simp
  have b0: "length (pushed_of (trace s0)) + pending G s0 \<le> 1 + numAdjEntries G"
    using pending_init[OF vg, of s0] s0(5,8) by simp
  have gl: "goalNode G < numNodes G" using vg by (simp add: valid_graph_def)
  have head: "state_ok \<alpha> rinv G t \<and> trace_ok \<alpha> G t \<and>
      length (pushed_of (trace t)) \<le> 1 + numAdjEntries G" if "reach ops G h s0 t" for t
    using trace_ok_reach[OF spec vg ht that ok0 t0] pushes_bounded[OF spec vg ht that ok0 b0]
    by simp
  have "state_ok \<alpha> rinv G s \<and>
    nodesExpanded s = length (expanded_of (trace s)) \<and>
    steps s = length (popped_of (trace s)) \<and>
    mset (pushed_of (trace s)) = \<alpha> (open_pq s) + mset (popped_of (trace s)) \<and>
    distinct (map node (expanded_of (trace s))) \<and>
    (\<forall>c \<in> set (expanded_of (trace s)). node c < numNodes G) \<and>
    (\<forall>v < numNodes G. dist_v s ! v = min_pushed (trace s) v) \<and>
    never_repushed (trace s) \<and>
    length (pushed_of (trace s)) \<le> 1 + numAdjEntries G"
  proof (cases "reach ops G h s0 s")
    case True
    from head[OF True] have ok: "state_ok \<alpha> rinv G s" and t: "trace_ok \<alpha> G s"
      and b: "length (pushed_of (trace s)) \<le> 1 + numAdjEntries G" by simp_all
    have "\<forall>c \<in> set (expanded_of (trace s)). node c < numNodes G"
      using trace_okD(5)[OF t] by auto
    with ok b trace_okD[OF t] show ?thesis by blast
  next
    case False
    with v obtain s' where s': "reach ops G h s0 s'" "\<not> pq_empty ops (open_pq s')"
      "loop_body ops G h s' = Break s" unfolding visited_def by blast
    from head[OF s'(1)] have ok: "state_ok \<alpha> rinv G s'" and t: "trace_ok \<alpha> G s'"
      and b: "length (pushed_of (trace s')) \<le> 1 + numAdjEntries G" by simp_all
    from spec vg ht ok s'(2) have ns:
      "\<not> exceeds (g (pq_top ops (open_pq s'))) (dist_v s' ! node (pq_top ops (open_pq s')))"
      and gn: "node (pq_top ops (open_pq s')) = goalNode G"
      and s: "s = expanded_state ops s'"
      using s'(3) by (cases rule: loop_body_ok; simp)+
    note e = trace_ok_expanded[OF spec ok s'(2) t ns]
    have "\<forall>c \<in> set (expanded_of (trace s)). node c < numNodes G"
    proof
      fix c assume "c \<in> set (expanded_of (trace s))"
      then have "node c \<in> set (map node (expanded_of (trace (expanded_state ops s'))))"
        unfolding s set_map by (rule imageI)
      with e(5) gn gl show "node c < numNodes G" by auto
    qed
    moreover have "length (pushed_of (trace s)) \<le> 1 + numAdjEntries G"
      using b by (simp add: s)
    ultimately show ?thesis
      using state_ok_expanded[OF spec ok s'(2)] e(1,2,3,4,7) e(6) unfolding s by blast
  qed
  then show "state_ok \<alpha> rinv G s"
    and "nodesExpanded s = length (expanded_of (trace s))"
    and "steps s = length (popped_of (trace s))"
    and "mset (pushed_of (trace s)) = \<alpha> (open_pq s) + mset (popped_of (trace s))"
    and "distinct (map node (expanded_of (trace s)))"
    and "\<forall>c \<in> set (expanded_of (trace s)). node c < numNodes G"
    and "\<forall>v < numNodes G. dist_v s ! v = min_pushed (trace s) v"
    and "never_repushed (trace s)"
    and "length (pushed_of (trace s)) \<le> 1 + numAdjEntries G"
    by blast+
qed

lemma state_at_reach:
  fixes s0 s :: "'q SearchState"
  assumes "state_at ops G h k s0 = Some s"
  shows "reach ops G h s0 s"
  using assms
proof (induction k arbitrary: s0)
  case 0
  then show ?case by (simp add: reach_init)
next
  case (Suc k)
  from Suc.prems obtain s1 where ne: "\<not> pq_empty ops (open_pq s0)"
    and c: "loop_body ops G h s0 = Continue s1" and r: "state_at ops G h k s1 = Some s"
    by (auto split: if_splits outcome.splits)
  from reach_first[OF Suc.IH[OF r] ne c] show ?case .
qed

lemma valid_detour: "valid_graph detour"
  by (simp add: valid_graph_def detour_def)

lemma detour_init: "init_search list_pq detour zero_heuristic = Inr detour_s0"
  by code_simp

lemma detour_at3: "state_at list_pq detour zero_heuristic 3 detour_s0 = Some detour_s3"
  by code_simp

lemma detour_at4: "state_at list_pq detour zero_heuristic 4 detour_s0 = Some detour_s4"
  by code_simp

lemma detour_built:
  "add_edges [(0, 1, 1), (1, 2, 1), (0, 2, 5 / 2), (2, 3, 2)] (replicate (numNodes detour) [])
     = Inr (adjacencyList detour)"
  by code_simp

lemma is_path_snoc:
  assumes "is_path G u p v" "v < length (adjacencyList G)" "e \<in> set (adjacencyList G ! v)"
  shows "is_path G u (p @ [e]) (fst e)"
  using assms by (induction p arbitrary: u) auto

lemma path_cost_simps [simp]:
  "path_cost [] = 0" "path_cost (e # p) = snd e + path_cost p"
  "path_cost (p @ q) = path_cost p + path_cost q"
  by (simp_all add: path_cost_def)

text \<open>A top entry that is not stale carries \<^verbatim>\<open>dist\<close> of its node.\<close>

lemma top_dist:
  fixes s :: "'q SearchState"
  assumes spec: "pq_spec ops \<alpha> rinv" and ok: "state_ok \<alpha> rinv G s"
    and ne: "\<not> pq_empty ops (open_pq s)"
    and ns: "\<not> exceeds (g (pq_top ops (open_pq s))) (dist_v s ! node (pq_top ops (open_pq s)))"
  shows "dist_v s ! node (pq_top ops (open_pq s)) = Finite (g (pq_top ops (open_pq s)))"
proof -
  have r: "rinv (open_pq s)" using ok by (rule state_okD)
  from state_okD(5)[OF ok pq_spec_top(1)[OF spec r ne]] ns show ?thesis
    by (cases "dist_v s ! node (pq_top ops (open_pq s))") auto
qed

lemma dist_paths_reach:
  fixes s0 s :: "'q SearchState"
  assumes spec: "pq_spec ops \<alpha> rinv" and vg: "valid_graph G" and ht: "heur_total G h"
    and r: "reach ops G h s0 s"
    and ok0: "state_ok \<alpha> rinv G s0" and d0: "dist_paths G s0"
  shows "state_ok \<alpha> rinv G s \<and> dist_paths G s"
proof (rule reach_invariant[OF spec vg ht r ok0, where I = "dist_paths G"
      and J = "\<lambda>cur s. dist_paths G s \<and>
         (\<exists>p. is_path G (startNode G) p (node cur) \<and> path_cost p = g cur)"])
  show "dist_paths G s0" by (rule d0)
  show "dist_paths G (stale_state ops s)" if "dist_paths G s" for s :: "'q SearchState"
    using that by (simp add: dist_paths_def)
  show "dist_paths G (closed_state ops s) \<and>
      (\<exists>p. is_path G (startNode G) p (node (pq_top ops (open_pq s))) \<and>
           path_cost p = g (pq_top ops (open_pq s)))"
    if ok: "state_ok \<alpha> rinv G s" and d: "dist_paths G s" and ne: "\<not> pq_empty ops (open_pq s)"
      and ns: "\<not> exceeds (g (pq_top ops (open_pq s))) (dist_v s ! node (pq_top ops (open_pq s)))"
    for s :: "'q SearchState"
  proof -
    have rq: "rinv (open_pq s)" using ok by (rule state_okD)
    have lt: "node (pq_top ops (open_pq s)) < numNodes G"
      using pq_spec_top(1)[OF spec rq ne] state_okD(4)[OF ok] by blast
    from d lt top_dist[OF spec ok ne ns] show ?thesis by (simp add: dist_paths_def)
  qed
  show "dist_paths G (push_nbr ops nbr (g cur + w) (g cur + w + hval h nbr) s) \<and>
      (\<exists>p. is_path G (startNode G) p (node cur) \<and> path_cost p = g cur)"
    if ok: "state_ok \<alpha> rinv G s"
      and J: "dist_paths G s \<and> (\<exists>p. is_path G (startNode G) p (node cur) \<and> path_cost p = g cur)"
      and lt: "node cur < numNodes G" and e: "(nbr, w) \<in> set (adjacencyList G ! node cur)"
      and nbr: "nbr < numNodes G"
    for cur and s :: "'q SearchState" and nbr w
  proof -
    from J obtain p where p: "is_path G (startNode G) p (node cur)" "path_cost p = g cur" by blast
    have la: "node cur < length (adjacencyList G)" using lt vg by (simp add: valid_graph_def)
    from is_path_snoc[OF p(1) la e] p(2)
    have "is_path G (startNode G) (p @ [(nbr, w)]) nbr \<and> path_cost (p @ [(nbr, w)]) = g cur + w"
      by simp
    then have "\<exists>q. is_path G (startNode G) q nbr \<and> path_cost q = g cur + w" by blast
    with J show ?thesis
      using state_okD(2)[OF ok] nbr by (auto simp: dist_paths_def nth_list_update)
  qed
qed simp

lemma dist_paths_init:
  fixes s0 :: "'q SearchState"
  assumes "dist_v s0 = (replicate (numNodes G) Infinity)[startNode G := Finite 0]"
  shows "dist_paths G s0"
  unfolding dist_paths_def
proof (intro allI impI)
  fix v d
  assume v: "v < numNodes G" and d: "dist_v s0 ! v = Finite d"
  have "v = startNode G \<and> d = 0"
    using v d unfolding assms by (cases "v = startNode G") (simp_all add: nth_list_update)
  moreover have "is_path G (startNode G) [] (startNode G) \<and> path_cost [] = 0" by simp
  ultimately show "\<exists>p. is_path G (startNode G) p v \<and> path_cost p = d" by blast
qed

text \<open>
  The accumulators after the runs from \<open>run\<close> on, when the search returns \<open>sf\<close>: every run
  adds its clock reading and the two counters of \<open>sf\<close>; \<^verbatim>\<open>pathCost\<close> is written in run 0 and
  in no other.
\<close>

lemma runs_from_eq:
  fixes ops :: "'q pq_ops"
  assumes s: "search ops G h = Some (Inr sf)" and c: "pathCost_of G sf = Inr c"
  shows "runs_from ops G h clock run acc =
     Some (Inr (acc\<lparr> totalNanoseconds := totalNanoseconds acc + (\<Sum>i = run..<NUM_RUNS. clock i),
                      totalNodesExpanded := totalNodesExpanded acc + word_of_nat ((NUM_RUNS - run) * nodesExpanded sf),
                      totalSteps := totalSteps acc + word_of_nat ((NUM_RUNS - run) * steps sf),
                      pathCost := (if run = 0 then c else pathCost acc) \<rparr>))"
proof (induction "NUM_RUNS - run" arbitrary: run acc)
  case 0
  then have "\<not> run < NUM_RUNS" by simp
  then have "runs_from ops G h clock run acc = Some (Inr acc)"
    by (subst runs_from.simps) (simp del: runs_from.simps)
  moreover have "run \<noteq> 0" using 0 by (auto simp: NUM_RUNS_def)
  ultimately show ?case using 0 by simp
next
  case (Suc n)
  then have lt: "run < NUM_RUNS" and n: "n = NUM_RUNS - Suc run" by simp_all
  let ?acc1 = "acc\<lparr> totalNanoseconds := totalNanoseconds acc + clock run,
                            totalNodesExpanded := totalNodesExpanded acc + word_of_nat (nodesExpanded sf),
                            totalSteps := totalSteps acc + word_of_nat (steps sf) \<rparr>"
  have sum: "(\<Sum>i = run..<NUM_RUNS. clock i) = clock run + (\<Sum>i = Suc run..<NUM_RUNS. clock i)"
    using lt by (simp add: sum.atLeast_Suc_lessThan)
  have "(NUM_RUNS - run) * k = k + (NUM_RUNS - Suc run) * k" for k :: nat
    using lt by (metis Suc_diff_Suc mult_Suc)
  then have cnt: "(word_of_nat ((NUM_RUNS - run) * k) :: 32 word)
      = word_of_nat k + word_of_nat ((NUM_RUNS - Suc run) * k)" for k :: nat
    by (simp only: of_nat_add)
  show ?case
  proof (cases "run = 0")
    case r0: True
    have "runs_from ops G h clock run acc =
        runs_from ops G h clock (Suc run) (?acc1\<lparr> pathCost := c \<rparr>)"
      using lt r0 s c by (subst runs_from.simps) (simp add: Let_def del: runs_from.simps)
    also note Suc.hyps(1)[OF n, of "?acc1\<lparr> pathCost := c \<rparr>"]
    finally have "runs_from ops G h clock run acc = Some (Inr ((?acc1\<lparr> pathCost := c \<rparr>)\<lparr>
            totalNanoseconds := totalNanoseconds (?acc1\<lparr> pathCost := c \<rparr>) + (\<Sum>i = Suc run..<NUM_RUNS. clock i),
            totalNodesExpanded := totalNodesExpanded (?acc1\<lparr> pathCost := c \<rparr>) + word_of_nat ((NUM_RUNS - Suc run) * nodesExpanded sf),
            totalSteps := totalSteps (?acc1\<lparr> pathCost := c \<rparr>) + word_of_nat ((NUM_RUNS - Suc run) * steps sf),
            pathCost := (if Suc run = 0 then c else pathCost (?acc1\<lparr> pathCost := c \<rparr>)) \<rparr>))" .
    also have "\<dots> = Some (Inr (acc\<lparr> totalNanoseconds := totalNanoseconds acc + (\<Sum>i = run..<NUM_RUNS. clock i),
                      totalNodesExpanded := totalNodesExpanded acc + word_of_nat ((NUM_RUNS - run) * nodesExpanded sf),
                      totalSteps := totalSteps acc + word_of_nat ((NUM_RUNS - run) * steps sf),
                      pathCost := (if run = 0 then c else pathCost acc) \<rparr>))"
      unfolding sum cnt[of "nodesExpanded sf"] cnt[of "steps sf"] using r0 by simp
    finally show ?thesis .
  next
    case r1: False
    have "runs_from ops G h clock run acc = runs_from ops G h clock (Suc run) ?acc1"
      using lt r1 s by (subst runs_from.simps) (simp add: Let_def del: runs_from.simps)
    also note Suc.hyps(1)[OF n, of ?acc1]
    finally have "runs_from ops G h clock run acc = Some (Inr (?acc1\<lparr>
            totalNanoseconds := totalNanoseconds ?acc1 + (\<Sum>i = Suc run..<NUM_RUNS. clock i),
            totalNodesExpanded := totalNodesExpanded ?acc1 + word_of_nat ((NUM_RUNS - Suc run) * nodesExpanded sf),
            totalSteps := totalSteps ?acc1 + word_of_nat ((NUM_RUNS - Suc run) * steps sf),
            pathCost := (if Suc run = 0 then c else pathCost ?acc1) \<rparr>))" .
    also have "\<dots> = Some (Inr (acc\<lparr> totalNanoseconds := totalNanoseconds acc + (\<Sum>i = run..<NUM_RUNS. clock i),
                      totalNodesExpanded := totalNodesExpanded acc + word_of_nat ((NUM_RUNS - run) * nodesExpanded sf),
                      totalSteps := totalSteps acc + word_of_nat ((NUM_RUNS - run) * steps sf),
                      pathCost := (if run = 0 then c else pathCost acc) \<rparr>))"
      unfolding sum cnt[of "nodesExpanded sf"] cnt[of "steps sf"] using r1 by simp
    finally show ?thesis .
  qed
qed

lemma runAStar_eq:
  fixes ops :: "'q pq_ops"
  assumes s: "search ops G h = Some (Inr sf)" and c: "pathCost_of G sf = Inr c"
  shows "runAStar ops G h clock =
     Some (Inr (report \<lparr> totalNanoseconds = (\<Sum>i = 0..<NUM_RUNS. clock i),
                           totalNodesExpanded = word_of_nat (NUM_RUNS * nodesExpanded sf),
                           totalSteps = word_of_nat (NUM_RUNS * steps sf),
                           pathCost = c \<rparr>))"
  unfolding runAStar_def runs_from_eq[OF s c] by simp

lemma search_returns_cost:
  fixes ops :: "'q pq_ops"
  assumes spec: "pq_spec ops \<alpha> rinv" and vg: "valid_graph G" and ht: "heur_total G h"
  obtains sf c where "search ops G h = Some (Inr sf)" "pathCost_of G sf = Inr c"
proof -
  from spec vg ht obtain s0 sf where e: "init_search ops G h = Inr s0"
    "search ops G h = Some (Inr sf)" "visited ops G h s0 sf"
    by (rule search_visited)
  have "goalNode G < length (dist_v sf)"
    using state_okD(2)[OF visited_facts(1)[OF spec vg ht e(1,3)]] vg
    by (simp add: valid_graph_def)
  then have "\<exists>c. pathCost_of G sf = Inr c"
    by (cases "dist_v sf ! goalNode G") (simp_all add: pathCost_of_def)
  with e(2) that show ?thesis by blast
qed

text \<open>On a valid graph the harness returns its report.\<close>

lemma runAStar_returns:
  fixes ops :: "'q pq_ops"
  assumes spec: "pq_spec ops \<alpha> rinv" and vg: "valid_graph G" and ht: "heur_total G h"
  shows "\<exists>rep. runAStar ops G h clock = Some (Inr rep)"
proof -
  from spec vg ht obtain sf c where "search ops G h = Some (Inr sf)" "pathCost_of G sf = Inr c"
    by (rule search_returns_cost)
  then show ?thesis by (simp add: runAStar_eq)
qed

lemma detour_search: "search list_pq detour zero_heuristic = Some (Inr detour_sf)"
  by code_simp

lemma detour_cost: "pathCost_of detour detour_sf = Inr 4"
  by code_simp

lemma benchmark_runs_eq:
  fixes ops :: "'q pq_ops"
  assumes s: "search ops G h = Some (Inr sf)" and c: "pathCost_of G sf = Inr c"
  shows "benchmark_runs ops G h clock [run..<run + n] acc =
     Some (Inr (acc\<lparr> sumNanoseconds := sumNanoseconds acc + (\<Sum>i = run..<run + n. clock i),
                      sumNodesExpanded := sumNodesExpanded acc + n * nodesExpanded sf,
                      sumSteps := sumSteps acc + n * steps sf,
                      firstPathCost := (if run = 0 \<and> 0 < n then c else firstPathCost acc) \<rparr>))"
proof (induction n arbitrary: run acc)
  case 0
  show ?case by simp
next
  case (Suc n)
  define rest where "rest = [Suc run..<Suc run + n]"
  define tail where "tail = (\<Sum>i = Suc run..<Suc run + n. clock i)"
  have u: "[run..<run + Suc n] = run # rest"
    by (simp add: rest_def upt_conv_Cons)
  have sm: "(\<Sum>i = run..<run + Suc n. clock i) = clock run + tail"
    by (simp add: tail_def sum.atLeast_Suc_lessThan)
  note ih = Suc.IH[of "Suc run", folded rest_def tail_def]
  show ?case
    unfolding u sm by (simp add: s c Let_def ih)
qed

lemma benchmark_eq:
  fixes ops :: "'q pq_ops"
  assumes s: "search ops G h = Some (Inr sf)" and c: "pathCost_of G sf = Inr c"
  shows "benchmark runs ops G h clock =
     Some (Inr (report_for runs \<lparr> sumNanoseconds = (\<Sum>i = 0..<runs. clock i),
                                  sumNodesExpanded = runs * nodesExpanded sf,
                                  sumSteps = runs * steps sf,
                                  firstPathCost = (if 0 < runs then c else 0) \<rparr>))"
  unfolding benchmark_def using benchmark_runs_eq[OF s c, of clock 0 runs] by simp

lemma sint_count:
  assumes "n < 2 ^ 31"
  shows "sint (word_of_nat n :: 32 word) = int n"
proof -
  from assms have "n < 2 ^ 32" by simp
  then have "take_bit 32 n = n" by (simp only: take_bit_nat_eq_self)
  then have "sint (word_of_nat n :: 32 word) = signed_take_bit 31 (int n)"
    by (simp add: sint_uint unsigned_of_nat)
  also have "\<dots> = int n"
    using assms by (intro signed_take_bit_int_eq_self) simp_all
  finally show ?thesis .
qed

lemma runAStar_benchmark:
  fixes ops :: "'q pq_ops"
  assumes s: "search ops G h = Some (Inr sf)" and c: "pathCost_of G sf = Inr c"
    and ne: "NUM_RUNS * nodesExpanded sf < 2 ^ 31" and st: "NUM_RUNS * steps sf < 2 ^ 31"
  shows "runAStar ops G h clock = benchmark NUM_RUNS ops G h clock"
proof -
  have "0 < NUM_RUNS" by (simp add: NUM_RUNS_def)
  then show ?thesis
    unfolding runAStar_eq[OF s c] benchmark_eq[OF s c]
    by (simp only: report_def report_for_def sint_count[OF ne] sint_count[OF st] Let_def
        Totals.simps Sums.simps if_True of_int_of_nat_eq)
qed
















text \<open>A state in which the goal has no finite \<^verbatim>\<open>dist\<close> when no path leads to it.\<close>

lemma unreachable_dist:
  fixes s0 s :: "'q SearchState"
  assumes spec: "pq_spec ops \<alpha> rinv" and vg: "valid_graph G" and ht: "heur_total G h"
    and np: "\<not> (\<exists>p. is_path G (startNode G) p (goalNode G))"
    and ok0: "state_ok \<alpha> rinv G s0"
    and d0: "dist_v s0 = (replicate (numNodes G) Infinity)[startNode G := Finite 0]"
    and r: "reach ops G h s0 s"
  shows "dist_v s ! goalNode G = Infinity"
proof -
  have gl: "goalNode G < numNodes G" using vg by (simp add: valid_graph_def)
  from dist_paths_reach[OF spec vg ht r ok0 dist_paths_init[OF d0]]
  have "dist_paths G s" by simp
  with np gl show ?thesis
    by (cases "dist_v s ! goalNode G") (auto simp: dist_paths_def)
qed

lemma min_pushed_Infinity:
  assumes "min_pushed t v = Infinity"
  shows "v \<notin> set (map node (pushed_of t))"
proof
  assume "v \<in> set (map node (pushed_of t))"
  then have "filter (\<lambda>e. node e = v) (pushed_of t) \<noteq> []"
    by (auto simp: filter_empty_conv)
  with assms show False by (simp add: min_pushed_def Let_def)
qed





lemma pair_no_path:
  "\<not> (\<exists>p. is_path disconnected_pair (startNode disconnected_pair) p (goalNode disconnected_pair))"
proof
  assume "\<exists>p. is_path disconnected_pair (startNode disconnected_pair) p (goalNode disconnected_pair)"
  then obtain p where
    "is_path disconnected_pair (startNode disconnected_pair) p (goalNode disconnected_pair)" ..
  then show False by (cases p) (simp_all add: disconnected_pair_def)
qed

subsection \<open>Graphs built by the loader\<close>

lemma loader_graph_valid:
  assumes "add_edges es (replicate N []) = Inr adj" "length cs = N" "s < N" "t < N"
  shows "valid_graph \<lparr> numNodes = N, adjacencyList = adj, coordinates = cs,
      startNode = s, goalNode = t, name = nm \<rparr>"
proof -
  have "\<forall>l \<in> set (replicate N ([] :: (nat \<times> real) list)). \<forall>e \<in> set l.
      fst e < length (replicate N ([] :: (nat \<times> real) list))" by simp
  from add_edges_valid[OF assms(1) this] add_edges_count[OF assms(1)] assms(2-4)
  show ?thesis by (simp add: valid_graph_def)
qed

lemma triangle_built:
  "add_edges [(0, 1, 1), (1, 2, 1), (0, 2, 5 / 2)] (replicate (numNodes triangle) [])
     = Inr (adjacencyList triangle)"
  by code_simp

subsection \<open>The scenarios of the specification, run\<close>

lemma heuristic_triangle:
  "heuristic triangle 0 = Inr (sqrt 2)" "heuristic triangle (Suc 0) = Inr 1"
  "heuristic triangle 2 = Inr 0"
  by (simp_all add: heuristic_def triangle_def Let_def)

lemma triangle_fields:
  "numNodes triangle = 3" "startNode triangle = 0" "goalNode triangle = 2"
  "adjacencyList triangle = [[(1, 1), (2, 5 / 2)], [(0, 1), (2, 1)], [(1, 1), (0, 5 / 2)]]"
  by (simp_all add: triangle_def)

text \<open>The triangle: the path cost is 2, by way of node 1, and not the \<open>5/2\<close> of the direct edge.\<close>

lemma triangle_search:
  "search list_pq triangle (heuristic triangle) =
     Some (Inr \<lparr> open_pq = [\<lparr> node = 2, g = 5 / 2, f = 5 / 2 \<rparr>],
                 dist_v = [Finite 0, Finite 1, Finite 2],
                 closed_v = [True, True, False], nodesExpanded = 3, steps = 3,
                 trace = [Push \<lparr> node = 0, g = 0, f = sqrt 2 \<rparr>,
                   Expand \<lparr> node = 0, g = 0, f = sqrt 2 \<rparr>,
                   Push \<lparr> node = 1, g = 1, f = 2 \<rparr>, Push \<lparr> node = 2, g = 5 / 2, f = 5 / 2 \<rparr>,
                   Expand \<lparr> node = 1, g = 1, f = 2 \<rparr>, Push \<lparr> node = 2, g = 2, f = 2 \<rparr>,
                   Expand \<lparr> node = 2, g = 2, f = 2 \<rparr>] \<rparr>)"
  unfolding search_def init_search_def triangle_fields
  apply (simp add: heuristic_triangle Let_def list_pq_def)
  apply (subst astar_loop.simps)
  apply (simp add: loop_body_def triangle_fields heuristic_triangle Let_def push_nbr_def)
  apply (subst astar_loop.simps)
  apply (simp add: loop_body_def triangle_fields heuristic_triangle Let_def push_nbr_def)
  apply (subst astar_loop.simps)
  apply (simp add: loop_body_def triangle_fields heuristic_triangle Let_def push_nbr_def)
  apply (simp add: numeral_3_eq_3 numeral_2_eq_2)
  done

lemma triangle_path_cost:
  "\<exists>sf. search list_pq triangle (heuristic triangle) = Some (Inr sf) \<and>
     pathCost_of triangle sf = Inr 2"
  unfolding triangle_search by (simp add: pathCost_of_def triangle_fields)

text \<open>The disconnected pair: the path cost is the sentinel.\<close>

lemma heuristic_pair:
  "heuristic disconnected_pair 0 = Inr 1" "heuristic disconnected_pair (Suc 0) = Inr 0"
  by (simp_all add: heuristic_def disconnected_pair_def Let_def)

lemma pair_fields:
  "numNodes disconnected_pair = 2" "startNode disconnected_pair = 0"
  "goalNode disconnected_pair = 1" "adjacencyList disconnected_pair = [[], []]"
  by (simp_all add: disconnected_pair_def)

lemma pair_search:
  "search list_pq disconnected_pair (heuristic disconnected_pair) =
     Some (Inr \<lparr> open_pq = [], dist_v = [Finite 0, Infinity], closed_v = [True, False],
                 nodesExpanded = 1, steps = 1,
                 trace = [Push \<lparr> node = 0, g = 0, f = 1 \<rparr>, Expand \<lparr> node = 0, g = 0, f = 1 \<rparr>] \<rparr>)"
  unfolding search_def init_search_def pair_fields
  apply (simp add: heuristic_pair Let_def list_pq_def)
  apply (subst astar_loop.simps)
  apply (simp add: loop_body_def pair_fields heuristic_pair Let_def push_nbr_def)
  apply (subst astar_loop.simps)
  apply (simp add: numeral_2_eq_2)
  done

lemma pair_path_cost:
  "\<exists>sf. search list_pq disconnected_pair (heuristic disconnected_pair) = Some (Inr sf) \<and>
     pathCost_of disconnected_pair sf = Inr (- 1)"
  unfolding pair_search by (simp add: pathCost_of_def pair_fields)

text \<open>Start equal to goal: path cost 0, one node expanded, one step.\<close>

lemma single_node_search:
  "search list_pq single_node (heuristic single_node) =
     Some (Inr \<lparr> open_pq = [], dist_v = [Finite 0], closed_v = [False],
                 nodesExpanded = 1, steps = 1,
                 trace = [Push \<lparr> node = 0, g = 0, f = 0 \<rparr>, Expand \<lparr> node = 0, g = 0, f = 0 \<rparr>] \<rparr>)"
  unfolding search_def init_search_def
  apply (simp add: heuristic_def single_node_def Let_def list_pq_def)
  apply (subst astar_loop.simps)
  apply (simp add: loop_body_def Let_def)
  done

lemma single_node_path_cost:
  "\<exists>sf. search list_pq single_node (heuristic single_node) = Some (Inr sf) \<and>
     pathCost_of single_node sf = Inr 0 \<and> nodesExpanded sf = 1 \<and> steps sf = 1"
  unfolding single_node_search by (simp add: pathCost_of_def single_node_def)

subsection \<open>A graph on which the Euclidean heuristic is not consistent\<close>




subsection \<open>Exact arithmetic\<close>


lemma scaled_nat_nonneg:
  fixes x :: real
  assumes "x * 2 ^ k \<in> \<nat>"
  shows "0 \<le> x"
proof -
  from assms obtain n :: nat where "x * 2 ^ k = of_nat n" by (rule Nats_cases)
  then have "0 \<le> x * 2 ^ k" by simp
  moreover have "(0::real) < 2 ^ k" by simp
  ultimately show ?thesis by (simp only: zero_le_mult_iff) auto
qed




lemma wsum_nonneg:
  assumes "\<forall>e \<in> set es. 0 \<le> snd e"
  shows "0 \<le> wsum es"
  unfolding wsum_def using assms by (intro sum_list_nonneg) auto





lemma closed_weight_simps [simp]:
  "closed_weight G (stale_state ops s) = closed_weight G s"
  "closed_weight G (expanded_state ops s) = closed_weight G s"
  "closed_weight G (push_nbr ops nbr newG newF s) = closed_weight G s"
  by (simp_all add: closed_weight_def)





lemma exact_doubles_nonneg: "exact_doubles k G \<Longrightarrow> nonneg_weights G"
  unfolding exact_doubles_def nonneg_weights_def by (blast intro: scaled_nat_nonneg)



text \<open>
  Under \<open>exact_doubles\<close> the operations of the heuristic are exact as well: the differences
  of the coordinates are integer multiples of \<open>2^-k\<close> with numerators of at most \<open>2^26\<close>,
  their squares and the sum of the squares are natural multiples of \<open>2^-2k\<close> with
  numerators of at most \<open>2^53\<close>, and the square root is \<open>dyadic\<close>.
\<close>

lemma exact_heuristic:
  fixes dx dy :: real
  assumes ex: "exact_doubles k G" and vg: "valid_graph G" and n: "n < numNodes G"
    and dx: "dx = fst (coordinates G ! n) - fst (coordinates G ! goalNode G)"
    and dy: "dy = snd (coordinates G ! n) - snd (coordinates G ! goalNode G)"
  shows "heuristic G n = Inr (sqrt (dx * dx + dy * dy))"
    and "dx * 2 ^ k \<in> \<int> \<and> \<bar>dx\<bar> * 2 ^ k \<le> 2 ^ 26"
    and "dy * 2 ^ k \<in> \<int> \<and> \<bar>dy\<bar> * 2 ^ k \<le> 2 ^ 26"
    and "dx * dx * 2 ^ (2 * k) \<in> \<nat> \<and> dx * dx * 2 ^ (2 * k) \<le> 2 ^ 52"
    and "dy * dy * 2 ^ (2 * k) \<in> \<nat> \<and> dy * dy * 2 ^ (2 * k) \<le> 2 ^ 52"
    and "(dx * dx + dy * dy) * 2 ^ (2 * k) \<in> \<nat> \<and> (dx * dx + dy * dy) * 2 ^ (2 * k) \<le> 2 ^ 53"
    and "dyadic k (sqrt (dx * dx + dy * dy))"
proof -
  have len: "length (coordinates G) = numNodes G" and gl: "goalNode G < numNodes G"
    using vg by (simp_all add: valid_graph_def)
  show h: "heuristic G n = Inr (sqrt (dx * dx + dy * dy))"
    using n gl len by (simp add: heuristic_def Let_def dx dy)
  have co: "fst c * 2 ^ k \<in> \<int> \<and> \<bar>fst c\<bar> * 2 ^ k \<le> 2 ^ 25 \<and>
        snd c * 2 ^ k \<in> \<int> \<and> \<bar>snd c\<bar> * 2 ^ k \<le> 2 ^ 25"
    if "c \<in> set (coordinates G)" for c
    using ex that unfolding exact_doubles_def by blast
  have cn: "coordinates G ! n \<in> set (coordinates G)"
    and cg: "coordinates G ! goalNode G \<in> set (coordinates G)"
    using n gl len by simp_all
  have diff: "(a - b) * 2 ^ k \<in> \<int> \<and> \<bar>a - b\<bar> * 2 ^ k \<le> 2 ^ 26"
    if "a * 2 ^ k \<in> \<int>" "\<bar>a\<bar> * 2 ^ k \<le> 2 ^ 25" "b * 2 ^ k \<in> \<int>" "\<bar>b\<bar> * 2 ^ k \<le> 2 ^ 25"
    for a b :: real
  proof
    have "(a - b) * 2 ^ k = a * 2 ^ k - b * 2 ^ k" by (simp add: left_diff_distrib)
    with that(1,3) show "(a - b) * 2 ^ k \<in> \<int>" by simp
    have "\<bar>a - b\<bar> * 2 ^ k \<le> (\<bar>a\<bar> + \<bar>b\<bar>) * 2 ^ k"
      by (intro mult_right_mono) simp_all
    also have "\<dots> = \<bar>a\<bar> * 2 ^ k + \<bar>b\<bar> * 2 ^ k" by (simp add: distrib_right)
    also have "\<dots> \<le> 2 ^ 25 + 2 ^ 25" using that(2,4) by (rule add_mono)
    finally show "\<bar>a - b\<bar> * 2 ^ k \<le> 2 ^ 26" by simp
  qed
  show x: "dx * 2 ^ k \<in> \<int> \<and> \<bar>dx\<bar> * 2 ^ k \<le> 2 ^ 26"
    unfolding dx using co[OF cn] co[OF cg] by (intro diff) simp_all
  show y: "dy * 2 ^ k \<in> \<int> \<and> \<bar>dy\<bar> * 2 ^ k \<le> 2 ^ 26"
    unfolding dy using co[OF cn] co[OF cg] by (intro diff) simp_all
  have sq: "d * d * 2 ^ (2 * k) \<in> \<nat> \<and> d * d * 2 ^ (2 * k) \<le> 2 ^ 52"
    if "d * 2 ^ k \<in> \<int>" "\<bar>d\<bar> * 2 ^ k \<le> 2 ^ 26" for d :: real
  proof
    have "(2::real) ^ (2 * k) = 2 ^ k * 2 ^ k"
      by (simp only: mult_2 power_add)
    then have e: "d * d * 2 ^ (2 * k) = (d * 2 ^ k) * (d * 2 ^ k)"
      by (simp only: mult_ac)
    have "(d * 2 ^ k) * (d * 2 ^ k) \<in> \<int>" using that(1) by simp
    moreover have "0 \<le> (d * 2 ^ k) * (d * 2 ^ k)" by simp
    ultimately show "d * d * 2 ^ (2 * k) \<in> \<nat>" unfolding e by (simp add: Nats_altdef2)
    have "\<bar>d * 2 ^ k\<bar> \<le> 2 ^ 26" using that(2) by (simp add: abs_mult)
    then have "\<bar>d * 2 ^ k\<bar> * \<bar>d * 2 ^ k\<bar> \<le> 2 ^ 26 * 2 ^ 26"
      by (intro mult_mono) simp_all
    then show "d * d * 2 ^ (2 * k) \<le> 2 ^ 52" unfolding e by (simp add: abs_mult_self_eq flip: abs_mult)
  qed
  from sq x show sx: "dx * dx * 2 ^ (2 * k) \<in> \<nat> \<and> dx * dx * 2 ^ (2 * k) \<le> 2 ^ 52" by blast
  from sq y show sy: "dy * dy * 2 ^ (2 * k) \<in> \<nat> \<and> dy * dy * 2 ^ (2 * k) \<le> 2 ^ 52" by blast
  have "(dx * dx + dy * dy) * 2 ^ (2 * k) = dx * dx * 2 ^ (2 * k) + dy * dy * 2 ^ (2 * k)"
    by (simp add: distrib_right)
  moreover have "dx * dx * 2 ^ (2 * k) + dy * dy * 2 ^ (2 * k) \<le> 2 ^ 52 + 2 ^ 52"
    using sx sy by (intro add_mono) simp_all
  ultimately show "(dx * dx + dy * dy) * 2 ^ (2 * k) \<in> \<nat> \<and>
      (dx * dx + dy * dy) * 2 ^ (2 * k) \<le> 2 ^ 53"
    using sx sy by simp
  have hv: "hval (heuristic G) n = sqrt (dx * dx + dy * dy)" by (simp add: hval_def h)
  from ex n have a: "hval (heuristic G) n * 2 ^ k \<in> \<nat>"
    and b: "(total_weight G + hval (heuristic G) n) * 2 ^ k \<le> 2 ^ 53"
    unfolding exact_doubles_def by blast+
  have nn: "nonneg_weights G" using ex by (rule exact_doubles_nonneg)
  have "0 \<le> total_weight G"
    unfolding total_weight_def
  proof (rule sum_list_nonneg)
    fix x assume "x \<in> set (map wsum (adjacencyList G))"
    then obtain es where "es \<in> set (adjacencyList G)" "x = wsum es" by auto
    then show "0 \<le> x" using nn by (auto simp: nonneg_weights_def intro!: wsum_nonneg)
  qed
  then have "hval (heuristic G) n * 2 ^ k \<le> (total_weight G + hval (heuristic G) n) * 2 ^ k"
    by (intro mult_right_mono) simp_all
  also note b
  finally have "hval (heuristic G) n * 2 ^ k \<le> 2 ^ 53" .
  with a show "dyadic k (sqrt (dx * dx + dy * dy))" unfolding dyadic_def hv by simp
qed

subsection \<open>The search on a chain, and the totals of a hundred runs\<close>

lemma heuristic_chain: "v < n \<Longrightarrow> heuristic (chain n) v = Inr 0"
  by (simp add: heuristic_def chain_def Let_def)

lemma chain_fields:
  "numNodes (chain n) = n" "startNode (chain n) = 0" "goalNode (chain n) = n - 1"
  "length (adjacencyList (chain n)) = n"
  by (simp_all add: chain_def)

lemma chain_adj:
  assumes "k < n"
  shows "adjacencyList (chain n) ! k =
      (if 0 < k then [(k - 1, 1)] else []) @ (if Suc k < n then [(Suc k, 1)] else [])"
  using assms by (simp add: chain_def)

lemma chain_dist_next:
  assumes "Suc k < n"
  shows "(map (\<lambda>i. Finite (real i)) [0..<Suc k] @ replicate (n - Suc k) Infinity)
            [Suc k := Finite (real k + 1)]
         = map (\<lambda>i. Finite (real i)) [0..<Suc (Suc k)] @ replicate (n - Suc (Suc k)) Infinity"
proof -
  from assms have r: "n - Suc k = Suc (n - Suc (Suc k))" by simp
  have "real k + 1 = real (Suc k)" by simp
  then show ?thesis
    unfolding r by (simp add: list_update_append del: of_nat_Suc)
qed

lemma chain_closed_next:
  assumes "k < n"
  shows "(replicate k True @ replicate (n - k) False)[k := True]
         = replicate (Suc k) True @ replicate (n - Suc k) False"
proof -
  from assms have r: "n - k = Suc (n - Suc k)" by simp
  show ?thesis
    unfolding r by (simp add: list_update_append replicate_append_same)
qed

lemma chain_dist_nth:
  "i \<le> k \<Longrightarrow>
     (map (\<lambda>i. Finite (real i)) [0..<Suc k] @ replicate (n - Suc k) Infinity) ! i = Finite (real i)"
  "Suc k < n \<Longrightarrow>
     (map (\<lambda>i. Finite (real i)) [0..<Suc k] @ replicate (n - Suc k) Infinity) ! Suc k = Infinity"
  by (simp_all add: nth_append del: upt_Suc)

lemma chain_step:
  assumes k: "Suc k < n" and s: "chain_at n k s"
  shows "\<exists>s'. loop_body list_pq (chain n) (heuristic (chain n)) s = Continue s' \<and>
      chain_at n (Suc k) s'"
proof -
  define h where "h = heuristic (chain n)"
  define cur where "cur = \<lparr> node = k, g = real k, f = real k \<rparr>"
  define D where "D = map (\<lambda>i. Finite (real i)) [0..<Suc k] @ replicate (n - Suc k) Infinity"
  define C where "C = replicate (Suc k) True @ replicate (n - Suc k) False"
  define A where "A = adjacencyList (chain n) ! k"
  from s have o: "open_pq s = [cur]" and d: "dist_v s = D"
    and c: "closed_v s = replicate k True @ replicate (n - k) False"
    and ne: "nodesExpanded s = k" and st: "steps s = k"
    by (simp_all add: chain_at_def cur_def D_def)
  have ld: "length D = n" and lc: "length C = n" using k by (simp_all add: D_def C_def)
  have dk: "D ! k = Finite (real k)" unfolding D_def by (rule chain_dist_nth(1)) simp
  have dp: "D ! (k - 1) = Finite (real (k - 1))" unfolding D_def by (rule chain_dist_nth(1)) simp
  have dn: "D ! Suc k = Infinity" unfolding D_def using k by (rule chain_dist_nth(2))
  have cn: "\<not> C ! Suc k" using k by (simp add: C_def nth_append)
  have cl: "(closed_v s)[k := True] = C"
    unfolding c C_def using k by (intro chain_closed_next) simp
  have hn: "h (Suc k) = Inr 0" unfolding h_def using k by (rule heuristic_chain)
  define s2 where "s2 = s\<lparr> open_pq := [], steps := steps s + 1,
      nodesExpanded := nodesExpanded s + 1,
      trace := trace s @ [Expand cur], closed_v := (closed_v s)[k := True] \<rparr>"
  have s2: "dist_v s2 = D" "closed_v s2 = C" "steps s2 = Suc k" "nodesExpanded s2 = Suc k"
    "open_pq s2 = []"
    by (simp_all add: s2_def d cl ne st)
  have e1: "explore list_pq h (real k) [(Suc k, 1)] s2 =
      Inr (push_nbr list_pq (Suc k) (real k + 1) (real k + 1) s2)"
    using k by (simp add: s2 ld lc dn cn hn Let_def)
  have ex: "explore list_pq h (real k) A s2 =
      Inr (push_nbr list_pq (Suc k) (real k + 1) (real k + 1) s2)"
  proof (cases "0 < k")
    case True
    have lt: "k - 1 < n" using k by simp
    have A: "A = [(k - 1, 1), (Suc k, 1)]"
      unfolding A_def using k True by (simp add: chain_adj)
    have "\<not> improves (real k + 1) (D ! (k - 1))" unfolding dp using True by simp
    then have "explore list_pq h (real k) [(k - 1, 1), (Suc k, 1)] s2 =
        explore list_pq h (real k) [(Suc k, 1)] s2"
      using lt by (subst explore.simps(2)) (simp add: s2 ld Let_def del: explore.simps)
    with e1 show ?thesis unfolding A by simp
  next
    case False
    then have "A = [(Suc k, 1)]" unfolding A_def using k by (simp add: chain_adj)
    with e1 show ?thesis by simp
  qed
  have ng: "k \<noteq> n - 1" using k by simp
  have kn: "k < n" using k by simp
  have "loop_body list_pq (chain n) h s =
      Continue (push_nbr list_pq (Suc k) (real k + 1) (real k + 1) s2)"
  proof -
    have top: "pq_top list_pq (open_pq s) = cur" "pq_pop list_pq (open_pq s) = []"
      by (simp_all add: list_pq_def o)
    have nc: "node cur = k" "g cur = real k" by (simp_all add: cur_def)
    have lcs: "length (closed_v s) = n" using kn by (simp add: c)
    show ?thesis
      using kn ng ex[unfolded A_def s2_def]
      unfolding loop_body_def top Let_def s2_def
      by (simp add: nc d ld dk lcs chain_fields del: explore.simps)
  qed
  moreover have "chain_at n (Suc k) (push_nbr list_pq (Suc k) (real k + 1) (real k + 1) s2)"
  proof -
    have "D[Suc k := Finite (real k + 1)] =
        map (\<lambda>i. Finite (real i)) [0..<Suc (Suc k)] @ replicate (n - Suc (Suc k)) Infinity"
      unfolding D_def using k by (rule chain_dist_next)
    moreover have "real (Suc k) = real k + 1" by simp
    ultimately show ?thesis
      unfolding chain_at_def
      by (simp add: s2 C_def list_pq_def push_nbr_def del: upt_Suc of_nat_Suc replicate.simps)
  qed
  ultimately show ?thesis unfolding h_def by blast
qed

lemma chain_last:
  assumes n: "n = Suc k" and s: "chain_at n k s"
  shows "\<exists>sf. loop_body list_pq (chain n) (heuristic (chain n)) s = Break sf \<and>
      nodesExpanded sf = n \<and> steps sf = n \<and> dist_v sf ! k = Finite (real k)"
proof -
  define cur where "cur = \<lparr> node = k, g = real k, f = real k \<rparr>"
  define D where
    "D = map (\<lambda>i. Finite (real i)) [0..<Suc k] @ replicate (n - Suc k) Infinity"
  from s have o: "open_pq s = [cur]" and d: "dist_v s = D"
    and ne: "nodesExpanded s = k" and st: "steps s = k"
    by (simp_all add: chain_at_def cur_def D_def)
  have ld: "length D = n" using n by (simp add: D_def)
  have dk: "D ! k = Finite (real k)" unfolding D_def by (rule chain_dist_nth(1)) simp
  have top: "pq_top list_pq (open_pq s) = cur" "pq_pop list_pq (open_pq s) = []"
    by (simp_all add: list_pq_def o)
  have nc: "node cur = k" "g cur = real k" by (simp_all add: cur_def)
  have gl: "goalNode (chain n) = k" using n by (simp add: chain_fields)
  have kn: "k < n" using n by simp
  show ?thesis
    unfolding loop_body_def top Let_def
    by (simp add: nc d ld dk ne st gl kn n[symmetric])
qed

lemma chain_run:
  assumes "k < n" "chain_at n k s"
  shows "\<exists>sf. astar_loop list_pq (chain n) (heuristic (chain n)) s = Some (Inr sf) \<and>
      nodesExpanded sf = n \<and> steps sf = n \<and> dist_v sf ! (n - 1) = Finite (real (n - 1))"
  using assms
proof (induction "n - Suc k" arbitrary: k s)
  case 0
  then have n: "n = Suc k" by simp
  then have k: "n - 1 = k" by simp
  from chain_last[OF n 0(3)] obtain sf where
    "loop_body list_pq (chain n) (heuristic (chain n)) s = Break sf"
    "nodesExpanded sf = n \<and> steps sf = n \<and> dist_v sf ! (n - 1) = Finite (real (n - 1))"
    unfolding k by blast
  moreover have "\<not> pq_empty list_pq (open_pq s)"
    using 0(3) by (simp add: chain_at_def list_pq_def)
  ultimately show ?case by (subst astar_loop.simps) simp
next
  case (Suc m)
  then have k: "Suc k < n" and m: "m = n - Suc (Suc k)" by simp_all
  from chain_step[OF k Suc.prems(2)] obtain s' where
    s': "loop_body list_pq (chain n) (heuristic (chain n)) s = Continue s'"
    "chain_at n (Suc k) s'" by blast
  have "\<not> pq_empty list_pq (open_pq s)"
    using Suc.prems(2) by (simp add: chain_at_def list_pq_def)
  with s'(1) have "astar_loop list_pq (chain n) (heuristic (chain n)) s =
      astar_loop list_pq (chain n) (heuristic (chain n)) s'"
    by (subst astar_loop.simps) simp
  with Suc.hyps(1)[OF m k s'(2)] show ?case by simp
qed

text \<open>The search on a chain expands every node, in as many steps.\<close>

lemma chain_search:
  assumes n: "0 < n"
  shows "\<exists>sf. search list_pq (chain n) (heuristic (chain n)) = Some (Inr sf) \<and>
      nodesExpanded sf = n \<and> steps sf = n \<and> pathCost_of (chain n) sf = Inr (real (n - 1))"
proof -
  let ?e = "\<lparr> node = 0, g = 0, f = 0 \<rparr>"
  let ?s0 = "\<lparr> open_pq = [?e], dist_v = (replicate n Infinity)[0 := Finite 0],
      closed_v = replicate n False, nodesExpanded = 0, steps = 0, trace = [Push ?e] \<rparr>"
  have i: "init_search list_pq (chain n) (heuristic (chain n)) = Inr ?s0"
    using n by (simp add: init_search_def chain_fields heuristic_chain list_pq_def)
  from n have r: "n = Suc (n - 1)" by simp
  have "(replicate n Infinity)[0 := Finite 0] = Finite 0 # replicate (n - 1) Infinity"
    by (subst r) simp
  then have "chain_at n 0 ?s0" by (simp add: chain_at_def)
  from chain_run[OF n this] obtain sf where sf:
    "astar_loop list_pq (chain n) (heuristic (chain n)) ?s0 = Some (Inr sf)"
    "nodesExpanded sf = n" "steps sf = n" "dist_v sf ! (n - 1) = Finite (real (n - 1))"
    by blast
  have "length (dist_v sf) = n"
  proof -
    have vg: "valid_graph (chain n)"
      using n by (auto simp: valid_graph_def chain_def split: if_splits)
    from list_pq_spec vg heuristic_total[OF vg] obtain s0 s' sf' where e:
      "init_search list_pq (chain n) (heuristic (chain n)) = Inr s0"
      "search list_pq (chain n) (heuristic (chain n)) = Some (Inr sf')"
      "state_ok mset (\<lambda>q. sorted (map f q)) (chain n) s'"
      "pq_empty list_pq (open_pq s') \<and> sf' = s' \<or>
       \<not> pq_empty list_pq (open_pq s') \<and>
       \<not> exceeds (g (pq_top list_pq (open_pq s'))) (dist_v s' ! node (pq_top list_pq (open_pq s'))) \<and>
       node (pq_top list_pq (open_pq s')) = goalNode (chain n) \<and> sf' = expanded_state list_pq s'"
      by (rule search_ends)
    from e(2) i sf(1) have "sf' = sf" by (simp add: search_def)
    moreover from e(4) have "dist_v sf' = dist_v s'" by auto
    ultimately show ?thesis using state_okD(2)[OF e(3)] by (simp add: chain_fields)
  qed
  with sf(4) n have "pathCost_of (chain n) sf = Inr (real (n - 1))"
    by (simp add: pathCost_of_def chain_fields)
  with sf(1-3) i show ?thesis by (simp add: search_def)
qed

text \<open>
  On the chain of 21,474,837 nodes each run expands that many nodes; the hundredth
  addition takes the totals to 2,147,483,700, past the largest \<^verbatim>\<open>int\<close>, and the averages
  reported are negative.
\<close>

lemma totals_overflow:
  "\<exists>rep. runAStar list_pq (chain 21474837) (heuristic (chain 21474837)) clock = Some (Inr rep) \<and>
     avgNodesExpanded rep = - 2147483596 / 100 \<and> avgSteps rep = - 2147483596 / 100 \<and>
     reportedPathCost rep = 21474836"
proof -
  have "(0::nat) < 21474837" by simp
  from chain_search[OF this] obtain sf where sf:
    "search list_pq (chain 21474837) (heuristic (chain 21474837)) = Some (Inr sf)"
    "nodesExpanded sf = 21474837" "steps sf = 21474837"
    "pathCost_of (chain 21474837) sf = Inr (real (21474837 - 1))" by blast
  have w: "sint (word_of_nat (NUM_RUNS * 21474837) :: 32 word) = - 2147483596"
    by (simp add: NUM_RUNS_def)
  show ?thesis
    unfolding runAStar_eq[OF sf(1,4)] sf(2,3)
    by (simp add: report_def w) (simp add: NUM_RUNS_def)
qed

section \<open>The claims\<close>

lemma valid_triangle: "valid_graph triangle"
  by (simp add: valid_graph_def triangle_def)

lemma valid_disconnected_pair: "valid_graph disconnected_pair"
  by (simp add: valid_graph_def disconnected_pair_def)

lemma valid_single_node: "valid_graph single_node"
  by (simp add: valid_graph_def single_node_def)

text \<open>
  C10. On a graph that satisfies the data-model invariants, with a heuristic defined on
  every node, the queue built by the initialisation is not empty and its top is the entry
  of the start node with \<open>g = 0\<close>, which is not stale; the search returns, the first two
  queue operations of its trace are the push and the non-stale removal of that entry, and
  the counters it returns are both at least 1. Nothing is assumed about a path to the
  goal.
\<close>

theorem first_pop_is_start:
  fixes ops :: "'q pq_ops"
  assumes spec: "pq_spec ops \<alpha> rinv" and vg: "valid_graph G" and ht: "heur_total G h"
  shows "\<exists>s0 sf t. init_search ops G h = Inr s0 \<and>
      \<not> pq_empty ops (open_pq s0) \<and>
      pq_top ops (open_pq s0) = \<lparr> node = startNode G, g = 0, f = hval h (startNode G) \<rparr> \<and>
      \<not> exceeds (g (pq_top ops (open_pq s0))) (dist_v s0 ! node (pq_top ops (open_pq s0))) \<and>
      search ops G h = Some (Inr sf) \<and>
      trace sf = Push \<lparr> node = startNode G, g = 0, f = hval h (startNode G) \<rparr> #
                 Expand \<lparr> node = startNode G, g = 0, f = hval h (startNode G) \<rparr> # t \<and>
      1 \<le> nodesExpanded sf \<and> 1 \<le> steps sf"
proof -
  let ?st = "\<lparr> node = startNode G, g = 0, f = hval h (startNode G) \<rparr>"
  from spec vg ht obtain s0 :: "'q SearchState" where s0:
    "init_search ops G h = Inr s0" "state_ok \<alpha> rinv G s0"
    "\<alpha> (open_pq s0) = {#?st#}"
    "dist_v s0 = (replicate (numNodes G) Infinity)[startNode G := Finite 0]"
    "closed_v s0 = replicate (numNodes G) False"
    "nodesExpanded s0 = 0" "steps s0 = 0"
    "trace s0 = [Push ?st]"
    by (rule init_search_ok)
  have st: "startNode G < numNodes G" using vg by (simp add: valid_graph_def)
  have r0: "rinv (open_pq s0)" using s0(2) by (rule state_okD)
  have ne0: "\<not> pq_empty ops (open_pq s0)" using pq_spec_empty[OF spec r0] s0(3) by simp
  have top0: "pq_top ops (open_pq s0) = ?st" using pq_spec_top(1)[OF spec r0 ne0] s0(3) by simp
  have ns0: "\<not> exceeds (g (pq_top ops (open_pq s0))) (dist_v s0 ! node (pq_top ops (open_pq s0)))"
    using st by (simp add: top0 s0(4))
  define I where "I = (\<lambda>s :: 'q SearchState. s = s0 \<or> (\<exists>t. trace s = Push ?st # Expand ?st # t))"
  define J where "J = (\<lambda>(cur :: State) (s :: 'q SearchState). \<exists>t. trace s = Push ?st # Expand ?st # t)"
  have inv: "state_ok \<alpha> rinv G s \<and> I s" if r: "reach ops G h s0 s" for s
  proof (rule reach_invariant[OF spec vg ht r s0(2), where I = I and J = J])
    show "I s0" by (simp add: I_def)
    show "I (stale_state ops s)" if "I s"
      "exceeds (g (pq_top ops (open_pq s))) (dist_v s ! node (pq_top ops (open_pq s)))" for s
      using that ns0 by (auto simp: I_def)
    show "J (pq_top ops (open_pq s)) (closed_state ops s)" if "I s" for s
      using that top0 s0(8) by (auto simp: I_def J_def)
    show "J cur (push_nbr ops nbr (g cur + w) (g cur + w + hval h nbr) s)" if "J cur s"
      for cur s nbr w
      using that by (auto simp: J_def)
    show "I s" if "J cur s" for cur s
      using that by (auto simp: I_def J_def)
  qed
  from spec vg ht obtain s0' s' sf where e:
    "init_search ops G h = Inr s0'" "search ops G h = Some (Inr sf)"
    "reach ops G h s0' s'" "state_ok \<alpha> rinv G s'" "trace_ok \<alpha> G s'"
    "pq_empty ops (open_pq s') \<and> sf = s' \<or>
     \<not> pq_empty ops (open_pq s') \<and>
     \<not> exceeds (g (pq_top ops (open_pq s'))) (dist_v s' ! node (pq_top ops (open_pq s'))) \<and>
     node (pq_top ops (open_pq s')) = goalNode G \<and> sf = expanded_state ops s'"
    by (rule search_ends) blast
  from e(1) s0(1) have [simp]: "s0' = s0" by simp
  from inv[OF e(3)[simplified]] have I': "I s'" by simp
  from e(6) have "\<exists>t. trace sf = Push ?st # Expand ?st # t \<and> 1 \<le> nodesExpanded sf \<and> 1 \<le> steps sf"
  proof
    assume a: "pq_empty ops (open_pq s') \<and> sf = s'"
    with ne0 have "s' \<noteq> s0" by auto
    with I' obtain t where t: "trace s' = Push ?st # Expand ?st # t" by (auto simp: I_def)
    with trace_okD(1,2)[OF e(5)] a show ?thesis by simp
  next
    assume a: "\<not> pq_empty ops (open_pq s') \<and>
     \<not> exceeds (g (pq_top ops (open_pq s'))) (dist_v s' ! node (pq_top ops (open_pq s'))) \<and>
     node (pq_top ops (open_pq s')) = goalNode G \<and> sf = expanded_state ops s'"
    then have sf: "sf = expanded_state ops s'" by simp
    have "\<exists>t. trace sf = Push ?st # Expand ?st # t"
      using I' top0 s0(8) by (auto simp: I_def sf)
    then show ?thesis by (auto simp: sf)
  qed
  with s0(1) ne0 top0 ns0 e(2) show ?thesis by blast
qed

theorem first_pop_is_start_witness:
  "pq_spec list_pq mset (\<lambda>q. sorted (map f q)) \<and> valid_graph disconnected_pair \<and>
   heur_total disconnected_pair (heuristic disconnected_pair) \<and>
   (\<exists>s0 sf t. init_search list_pq disconnected_pair (heuristic disconnected_pair) = Inr s0 \<and>
      \<not> pq_empty list_pq (open_pq s0) \<and>
      pq_top list_pq (open_pq s0) = \<lparr> node = startNode disconnected_pair, g = 0,
         f = hval (heuristic disconnected_pair) (startNode disconnected_pair) \<rparr> \<and>
      \<not> exceeds (g (pq_top list_pq (open_pq s0))) (dist_v s0 ! node (pq_top list_pq (open_pq s0))) \<and>
      search list_pq disconnected_pair (heuristic disconnected_pair) = Some (Inr sf) \<and>
      trace sf = Push \<lparr> node = startNode disconnected_pair, g = 0,
            f = hval (heuristic disconnected_pair) (startNode disconnected_pair) \<rparr> #
          Expand \<lparr> node = startNode disconnected_pair, g = 0,
            f = hval (heuristic disconnected_pair) (startNode disconnected_pair) \<rparr> # t \<and>
      1 \<le> nodesExpanded sf \<and> 1 \<le> steps sf)"
  using first_pop_is_start[OF list_pq_spec valid_disconnected_pair
      heuristic_total[OF valid_disconnected_pair]]
    list_pq_spec valid_disconnected_pair heuristic_total[OF valid_disconnected_pair]
  by blast

text \<open>
  C5. In a search on a valid graph, when the loop is entered in a state whose top entry is
  an entry of the goal and is not stale, the pass ends in \<^verbatim>\<open>break\<close>: the loop, and with
  it the search, returns the state in which the entry is removed, \<^verbatim>\<open>steps\<close> and
  \<^verbatim>\<open>nodesExpanded\<close> are one larger and the entry is recorded as expanded. \<^verbatim>\<open>dist\<close> and
  \<^verbatim>\<open>closed\<close> are unchanged, the goal is not closed, and nothing is pushed: the queue
  is the old one without the top entry.
\<close>

theorem goal_pop_breaks:
  fixes ops :: "'q pq_ops" and s0 s :: "'q SearchState"
  assumes spec: "pq_spec ops \<alpha> rinv" and vg: "valid_graph G" and ht: "heur_total G h"
    and i: "init_search ops G h = Inr s0" and r: "reach ops G h s0 s"
    and ne: "\<not> pq_empty ops (open_pq s)"
    and gl: "node (pq_top ops (open_pq s)) = goalNode G"
    and ns: "\<not> exceeds (g (pq_top ops (open_pq s))) (dist_v s ! node (pq_top ops (open_pq s)))"
  shows "\<exists>sf. loop_body ops G h s = Break sf \<and>
      astar_loop ops G h s = Some (Inr sf) \<and>
      search ops G h = Some (Inr sf) \<and>
      nodesExpanded sf = nodesExpanded s + 1 \<and>
      steps sf = steps s + 1 \<and>
      trace sf = trace s @ [Expand (pq_top ops (open_pq s))] \<and>
      pushed_of (trace sf) = pushed_of (trace s) \<and>
      \<alpha> (open_pq sf) = \<alpha> (open_pq s) - {#pq_top ops (open_pq s)#} \<and>
      dist_v sf = dist_v s \<and>
      closed_v sf = closed_v s \<and>
      \<not> closed_v sf ! goalNode G"
proof -
  have v: "visited ops G h s0 s" using r by (simp add: visited_def)
  have ok: "state_ok \<alpha> rinv G s" using visited_facts(1)[OF spec vg ht i v] .
  have rq: "rinv (open_pq s)" using ok by (rule state_okD)
  from spec vg ht ok ne have b: "loop_body ops G h s = Break (expanded_state ops s)"
    using gl ns by (cases rule: loop_body_ok) simp_all
  have l: "astar_loop ops G h s = Some (Inr (expanded_state ops s))"
    using ne b by (subst astar_loop.simps) simp
  have "search ops G h = Some (Inr (expanded_state ops s))"
    using i astar_loop_reach[OF r] l by (simp add: search_def)
  with b l pq_spec_top(4)[OF spec rq ne] state_okD(8)[OF ok] show ?thesis by simp
qed

text \<open>
  C6. In every state a search on a valid graph visits, \<^verbatim>\<open>steps\<close> is the number of entries
  removed from the queue so far, stale ones included, and \<^verbatim>\<open>nodesExpanded\<close> the number
  of those that were not stale; these are entries of distinct nodes, so that
  \<^verbatim>\<open>nodesExpanded\<close> is at most \<^verbatim>\<open>steps\<close> and at most \<open>numNodes\<close>. A pass of the loop
  removes the top entry and adds one to \<^verbatim>\<open>steps\<close>; it leaves \<^verbatim>\<open>nodesExpanded\<close> as it is
  when the entry is stale (its \<open>g\<close> exceeds \<^verbatim>\<open>dist\<close> of its node) and adds one when it is
  not. The search returns one of the visited states.
\<close>

theorem counters_count_removals:
  fixes ops :: "'q pq_ops" and s0 s :: "'q SearchState"
  assumes spec: "pq_spec ops \<alpha> rinv" and vg: "valid_graph G" and ht: "heur_total G h"
    and i: "init_search ops G h = Inr s0" and v: "visited ops G h s0 s"
  shows "steps s = length (popped_of (trace s)) \<and>
      nodesExpanded s = length (expanded_of (trace s)) \<and>
      distinct (map node (expanded_of (trace s))) \<and>
      nodesExpanded s \<le> steps s \<and>
      nodesExpanded s \<le> numNodes G \<and>
      (reach ops G h s0 s \<and> \<not> pq_empty ops (open_pq s) \<longrightarrow>
         (\<exists>s'. (loop_body ops G h s = Continue s' \<or> loop_body ops G h s = Break s') \<and>
            steps s' = steps s + 1 \<and>
            popped_of (trace s') = popped_of (trace s) @ [pq_top ops (open_pq s)] \<and>
            (if exceeds (g (pq_top ops (open_pq s))) (dist_v s ! node (pq_top ops (open_pq s)))
             then nodesExpanded s' = nodesExpanded s \<and>
                  expanded_of (trace s') = expanded_of (trace s)
             else nodesExpanded s' = nodesExpanded s + 1 \<and>
                  expanded_of (trace s') = expanded_of (trace s) @ [pq_top ops (open_pq s)]))) \<and>
      (\<exists>sf. search ops G h = Some (Inr sf) \<and> visited ops G h s0 sf)"
proof -
  note fs = visited_facts[OF spec vg ht i v]
  have 1: "nodesExpanded s \<le> steps s"
    using fs(2,3) expanded_le_popped[of "trace s"] by simp
  have "length (map node (expanded_of (trace s))) \<le> numNodes G"
    using fs(5,6) by (intro distinct_bounded_length) auto
  then have 2: "nodesExpanded s \<le> numNodes G" using fs(2) by simp
  have 3: "\<exists>s'. (loop_body ops G h s = Continue s' \<or> loop_body ops G h s = Break s') \<and>
            steps s' = steps s + 1 \<and>
            popped_of (trace s') = popped_of (trace s) @ [pq_top ops (open_pq s)] \<and>
            (if exceeds (g (pq_top ops (open_pq s))) (dist_v s ! node (pq_top ops (open_pq s)))
             then nodesExpanded s' = nodesExpanded s \<and>
                  expanded_of (trace s') = expanded_of (trace s)
             else nodesExpanded s' = nodesExpanded s + 1 \<and>
                  expanded_of (trace s') = expanded_of (trace s) @ [pq_top ops (open_pq s)])"
    if ne: "\<not> pq_empty ops (open_pq s)"
    using spec vg ht fs(1) ne
  proof (cases rule: loop_body_ok)
    case stale
    then show ?thesis by (intro exI[of _ "stale_state ops s"]) simp
  next
    case goal
    then show ?thesis by (intro exI[of _ "expanded_state ops s"]) simp
  next
    case (expand s')
    have rc: "rinv (open_pq (closed_state ops s))"
      using pq_spec_top(3)[OF spec state_okD(1)[OF fs(1)] ne] by simp
    from explore_queue[OF spec rc expand(3)] obtain evs where
      "trace s' = trace (closed_state ops s) @ map Push evs" by blast
    with explore_frame[OF expand(3)] expand(1,4) show ?thesis
      by (intro exI[of _ s']) simp
  qed
  from search_visited[OF spec vg ht] i
  have 4: "\<exists>sf. search ops G h = Some (Inr sf) \<and> visited ops G h s0 sf"
    by (metis Inr_inject)
  from fs(3,2,5) 1 2 3 4 show ?thesis by blast
qed

text \<open>
  C2. On every valid graph, whatever its topology and its weights, the search returns.
  The entries pushed in the whole search number at most one more than the adjacency
  entries of the graph, which for a graph the loader built from \<open>E\<close> edges is \<open>1 + 2 * E\<close>;
  the passes of the loop number no more than the pushes; and the entries expanded are of
  distinct nodes, so that no node is expanded twice.
\<close>

theorem search_terminates:
  fixes ops :: "'q pq_ops"
  assumes spec: "pq_spec ops \<alpha> rinv" and vg: "valid_graph G" and ht: "heur_total G h"
  shows "\<exists>sf. search ops G h = Some (Inr sf) \<and>
      length (pushed_of (trace sf)) \<le> 1 + numAdjEntries G \<and>
      (\<forall>es. add_edges es (replicate (numNodes G) []) = Inr (adjacencyList G) \<longrightarrow>
         length (pushed_of (trace sf)) \<le> 1 + 2 * length es) \<and>
      steps sf \<le> length (pushed_of (trace sf)) \<and>
      distinct (map node (expanded_of (trace sf)))"
proof -
  from spec vg ht obtain s0 sf where e: "init_search ops G h = Inr s0"
    "search ops G h = Some (Inr sf)" "visited ops G h s0 sf"
    by (rule search_visited)
  note fs = visited_facts[OF spec vg ht e(1,3)]
  have "numAdjEntries G = 2 * length es"
    if "add_edges es (replicate (numNodes G) []) = Inr (adjacencyList G)" for es
    using add_edges_count[OF that] by (simp add: numAdjEntries_def)
  with fs(9) have "\<forall>es. add_edges es (replicate (numNodes G) []) = Inr (adjacencyList G) \<longrightarrow>
         length (pushed_of (trace sf)) \<le> 1 + 2 * length es" by auto
  moreover have "steps sf \<le> length (pushed_of (trace sf))"
    using fs(3) popped_le_pushed[OF fs(4)] by simp
  ultimately show ?thesis using e(2) fs(9,5) by blast
qed

text \<open>
  C3. In every state a search on a valid graph visits, \<^verbatim>\<open>dist\<close> of each node is the least
  \<open>g\<close> among the entries pushed for it so far (\<open>Infinity\<close> when there is none), and no
  entry was pushed for a node after an entry of that node was expanded, that is, after
  the node was closed. A pass that finds the top entry stale removes it and counts the
  step, and changes nothing else: \<^verbatim>\<open>dist\<close>, \<^verbatim>\<open>closed\<close> and \<^verbatim>\<open>nodesExpanded\<close> are as
  before and nothing is pushed.
\<close>

theorem dist_is_least_pushed:
  fixes ops :: "'q pq_ops" and s0 s :: "'q SearchState"
  assumes spec: "pq_spec ops \<alpha> rinv" and vg: "valid_graph G" and ht: "heur_total G h"
    and i: "init_search ops G h = Inr s0" and v: "visited ops G h s0 s"
  shows "(\<forall>v < numNodes G. dist_v s ! v = min_pushed (trace s) v) \<and>
      (\<forall>t1 c t2 e. trace s = t1 @ Expand c # t2 \<longrightarrow> Push e \<in> set t2 \<longrightarrow> node e \<noteq> node c) \<and>
      (reach ops G h s0 s \<longrightarrow>
         {v. v < numNodes G \<and> closed_v s ! v} = set (map node (expanded_of (trace s)))) \<and>
      (reach ops G h s0 s \<and> \<not> pq_empty ops (open_pq s) \<and>
       exceeds (g (pq_top ops (open_pq s))) (dist_v s ! node (pq_top ops (open_pq s))) \<longrightarrow>
         (\<exists>s'. loop_body ops G h s = Continue s' \<and>
            dist_v s' = dist_v s \<and> closed_v s' = closed_v s \<and>
            nodesExpanded s' = nodesExpanded s \<and>
            pushed_of (trace s') = pushed_of (trace s) \<and>
            \<alpha> (open_pq s') = \<alpha> (open_pq s) - {#pq_top ops (open_pq s)#} \<and>
            steps s' = steps s + 1 \<and>
            trace s' = trace s @ [Stale (pq_top ops (open_pq s))]))"
proof -
  note fs = visited_facts[OF spec vg ht i v]
  have 2: "\<forall>t1 c t2 e. trace s = t1 @ Expand c # t2 \<longrightarrow> Push e \<in> set t2 \<longrightarrow> node e \<noteq> node c"
    using fs(8) never_repushedD by metis
  have 3: "{v. v < numNodes G \<and> closed_v s ! v} = set (map node (expanded_of (trace s)))"
    if r: "reach ops G h s0 s"
  proof -
    from spec vg ht obtain s0' :: "'q SearchState" where s0:
      "init_search ops G h = Inr s0'" "state_ok \<alpha> rinv G s0'"
      "\<alpha> (open_pq s0') = {#\<lparr> node = startNode G, g = 0, f = hval h (startNode G) \<rparr>#}"
      "dist_v s0' = (replicate (numNodes G) Infinity)[startNode G := Finite 0]"
      "closed_v s0' = replicate (numNodes G) False"
      "nodesExpanded s0' = 0" "steps s0' = 0"
      "trace s0' = [Push \<lparr> node = startNode G, g = 0, f = hval h (startNode G) \<rparr>]"
      by (rule init_search_ok)
    from i s0(1) have [simp]: "s0' = s0" by simp
    have t0: "trace_ok \<alpha> G s0" using s0(3-8) by (intro trace_ok_init) simp_all
    from trace_ok_reach[OF spec vg ht r _ t0] s0(2) have "trace_ok \<alpha> G s" by simp
    from trace_okD(5)[OF this] show ?thesis by simp
  qed
  have 4: "\<exists>s'. loop_body ops G h s = Continue s' \<and>
            dist_v s' = dist_v s \<and> closed_v s' = closed_v s \<and>
            nodesExpanded s' = nodesExpanded s \<and>
            pushed_of (trace s') = pushed_of (trace s) \<and>
            \<alpha> (open_pq s') = \<alpha> (open_pq s) - {#pq_top ops (open_pq s)#} \<and>
            steps s' = steps s + 1 \<and>
            trace s' = trace s @ [Stale (pq_top ops (open_pq s))]"
    if ne: "\<not> pq_empty ops (open_pq s)"
      and st: "exceeds (g (pq_top ops (open_pq s))) (dist_v s ! node (pq_top ops (open_pq s)))"
  proof -
    from spec vg ht fs(1) ne have "loop_body ops G h s = Continue (stale_state ops s)"
      using st by (cases rule: loop_body_ok) simp_all
    with pq_spec_top(4)[OF spec state_okD(1)[OF fs(1)] ne] show ?thesis by simp
  qed
  from fs(7) 2 3 4 show ?thesis by blast
qed

theorem goal_pop_breaks_witness:
  "pq_spec list_pq mset (\<lambda>q. sorted (map f q)) \<and> valid_graph detour \<and>
   heur_total detour zero_heuristic \<and>
   init_search list_pq detour zero_heuristic = Inr detour_s0 \<and>
   reach list_pq detour zero_heuristic detour_s0 detour_s4 \<and>
   \<not> pq_empty list_pq (open_pq detour_s4) \<and>
   node (pq_top list_pq (open_pq detour_s4)) = goalNode detour \<and>
   \<not> exceeds (g (pq_top list_pq (open_pq detour_s4)))
        (dist_v detour_s4 ! node (pq_top list_pq (open_pq detour_s4))) \<and>
   (\<exists>sf. loop_body list_pq detour zero_heuristic detour_s4 = Break sf \<and>
      astar_loop list_pq detour zero_heuristic detour_s4 = Some (Inr sf) \<and>
      search list_pq detour zero_heuristic = Some (Inr sf) \<and>
      nodesExpanded sf = 4 \<and> steps sf = 5 \<and>
      trace sf = trace detour_s4 @ [Expand \<lparr> node = 3, g = 4, f = 4 \<rparr>] \<and>
      pushed_of (trace sf) = pushed_of (trace detour_s4) \<and>
      mset (open_pq sf) = {#} \<and>
      dist_v sf = [Finite 0, Finite 1, Finite 2, Finite 4] \<and>
      closed_v sf = [True, True, True, False] \<and>
      \<not> closed_v sf ! goalNode detour)"
proof -
  have r: "reach list_pq detour zero_heuristic detour_s0 detour_s4"
    using detour_at4 by (rule state_at_reach)
  have ne: "\<not> pq_empty list_pq (open_pq detour_s4)" by code_simp
  have gl: "node (pq_top list_pq (open_pq detour_s4)) = goalNode detour" by code_simp
  have ns: "\<not> exceeds (g (pq_top list_pq (open_pq detour_s4)))
        (dist_v detour_s4 ! node (pq_top list_pq (open_pq detour_s4)))" by code_simp
  have t: "pq_top list_pq (open_pq detour_s4) = \<lparr> node = 3, g = 4, f = 4 \<rparr>" by code_simp
  have v: "nodesExpanded detour_s4 = 3" "steps detour_s4 = 4"
    "mset (open_pq detour_s4) = {#\<lparr> node = 3, g = 4, f = 4 \<rparr>#}"
    "dist_v detour_s4 = [Finite 0, Finite 1, Finite 2, Finite 4]"
    "closed_v detour_s4 = [True, True, True, False]"
    by (simp_all add: detour_s4_def detour_s3_def)
  from goal_pop_breaks[OF list_pq_spec valid_detour zero_heuristic_total detour_init r ne gl ns]
  show ?thesis
    using list_pq_spec valid_detour zero_heuristic_total detour_init r ne gl ns
    unfolding t v by simp
qed

theorem counters_count_removals_witness:
  "pq_spec list_pq mset (\<lambda>q. sorted (map f q)) \<and> valid_graph detour \<and>
   heur_total detour zero_heuristic \<and>
   init_search list_pq detour zero_heuristic = Inr detour_s0 \<and>
   visited list_pq detour zero_heuristic detour_s0 detour_s3 \<and>
   reach list_pq detour zero_heuristic detour_s0 detour_s3 \<and>
   \<not> pq_empty list_pq (open_pq detour_s3) \<and>
   exceeds (g (pq_top list_pq (open_pq detour_s3)))
     (dist_v detour_s3 ! node (pq_top list_pq (open_pq detour_s3))) \<and>
   steps detour_s3 = length (popped_of (trace detour_s3)) \<and>
   nodesExpanded detour_s3 = length (expanded_of (trace detour_s3)) \<and>
   distinct (map node (expanded_of (trace detour_s3))) \<and>
   nodesExpanded detour_s3 \<le> steps detour_s3 \<and>
   nodesExpanded detour_s3 \<le> numNodes detour \<and>
   (\<exists>s'. (loop_body list_pq detour zero_heuristic detour_s3 = Continue s' \<or>
          loop_body list_pq detour zero_heuristic detour_s3 = Break s') \<and>
      steps s' = steps detour_s3 + 1 \<and>
      popped_of (trace s') = popped_of (trace detour_s3) @ [pq_top list_pq (open_pq detour_s3)] \<and>
      nodesExpanded s' = nodesExpanded detour_s3 \<and>
      expanded_of (trace s') = expanded_of (trace detour_s3)) \<and>
   (\<exists>sf. search list_pq detour zero_heuristic = Some (Inr sf) \<and>
      visited list_pq detour zero_heuristic detour_s0 sf)"
proof -
  have r: "reach list_pq detour zero_heuristic detour_s0 detour_s3"
    using detour_at3 by (rule state_at_reach)
  then have v: "visited list_pq detour zero_heuristic detour_s0 detour_s3"
    by (simp add: visited_def)
  have ne: "\<not> pq_empty list_pq (open_pq detour_s3)" by code_simp
  have st: "exceeds (g (pq_top list_pq (open_pq detour_s3)))
     (dist_v detour_s3 ! node (pq_top list_pq (open_pq detour_s3)))" by code_simp
  note c = counters_count_removals[OF list_pq_spec valid_detour zero_heuristic_total detour_init v]
  from c have c1: "steps detour_s3 = length (popped_of (trace detour_s3))"
    and c2: "nodesExpanded detour_s3 = length (expanded_of (trace detour_s3))"
    and c3: "distinct (map node (expanded_of (trace detour_s3)))"
    and c4: "nodesExpanded detour_s3 \<le> steps detour_s3"
    and c5: "nodesExpanded detour_s3 \<le> numNodes detour"
    and c7: "\<exists>sf. search list_pq detour zero_heuristic = Some (Inr sf) \<and>
      visited list_pq detour zero_heuristic detour_s0 sf"
    by blast+
  from c r ne have "\<exists>s'. (loop_body list_pq detour zero_heuristic detour_s3 = Continue s' \<or>
          loop_body list_pq detour zero_heuristic detour_s3 = Break s') \<and>
      steps s' = steps detour_s3 + 1 \<and>
      popped_of (trace s') = popped_of (trace detour_s3) @ [pq_top list_pq (open_pq detour_s3)] \<and>
      (if exceeds (g (pq_top list_pq (open_pq detour_s3)))
            (dist_v detour_s3 ! node (pq_top list_pq (open_pq detour_s3)))
       then nodesExpanded s' = nodesExpanded detour_s3 \<and>
            expanded_of (trace s') = expanded_of (trace detour_s3)
       else nodesExpanded s' = nodesExpanded detour_s3 + 1 \<and>
            expanded_of (trace s') =
              expanded_of (trace detour_s3) @ [pq_top list_pq (open_pq detour_s3)])"
    by blast
  then have c6: "\<exists>s'. (loop_body list_pq detour zero_heuristic detour_s3 = Continue s' \<or>
          loop_body list_pq detour zero_heuristic detour_s3 = Break s') \<and>
      steps s' = steps detour_s3 + 1 \<and>
      popped_of (trace s') = popped_of (trace detour_s3) @ [pq_top list_pq (open_pq detour_s3)] \<and>
      nodesExpanded s' = nodesExpanded detour_s3 \<and>
      expanded_of (trace s') = expanded_of (trace detour_s3)"
    using st by (simp only: if_True)
  from list_pq_spec valid_detour zero_heuristic_total detour_init v r ne st c1 c2 c3 c4 c5 c6 c7
  show ?thesis by (intro conjI)
qed

theorem search_terminates_witness:
  "pq_spec list_pq mset (\<lambda>q. sorted (map f q)) \<and> valid_graph detour \<and>
   heur_total detour zero_heuristic \<and>
   add_edges [(0, 1, 1), (1, 2, 1), (0, 2, 5 / 2), (2, 3, 2)] (replicate (numNodes detour) [])
     = Inr (adjacencyList detour) \<and>
   (\<exists>sf. search list_pq detour zero_heuristic = Some (Inr sf) \<and>
      length (pushed_of (trace sf)) \<le> 1 + numAdjEntries detour \<and>
      length (pushed_of (trace sf)) \<le> 1 + 2 * 4 \<and>
      steps sf \<le> length (pushed_of (trace sf)) \<and>
      distinct (map node (expanded_of (trace sf))))"
proof -
  from search_terminates[OF list_pq_spec valid_detour zero_heuristic_total]
  obtain sf where sf: "search list_pq detour zero_heuristic = Some (Inr sf)"
    "length (pushed_of (trace sf)) \<le> 1 + numAdjEntries detour"
    "\<forall>es. add_edges es (replicate (numNodes detour) []) = Inr (adjacencyList detour) \<longrightarrow>
         length (pushed_of (trace sf)) \<le> 1 + 2 * length es"
    "steps sf \<le> length (pushed_of (trace sf))"
    "distinct (map node (expanded_of (trace sf)))" by blast
  from sf(3) detour_built have "length (pushed_of (trace sf)) \<le> 1 + 2 * 4" by fastforce
  with sf(1,2,4,5) list_pq_spec valid_detour zero_heuristic_total detour_built
  show ?thesis by blast
qed

theorem dist_is_least_pushed_witness:
  "pq_spec list_pq mset (\<lambda>q. sorted (map f q)) \<and> valid_graph detour \<and>
   heur_total detour zero_heuristic \<and>
   init_search list_pq detour zero_heuristic = Inr detour_s0 \<and>
   visited list_pq detour zero_heuristic detour_s0 detour_s3 \<and>
   reach list_pq detour zero_heuristic detour_s0 detour_s3 \<and>
   \<not> pq_empty list_pq (open_pq detour_s3) \<and>
   exceeds (g (pq_top list_pq (open_pq detour_s3)))
     (dist_v detour_s3 ! node (pq_top list_pq (open_pq detour_s3))) \<and>
   (2::nat) < numNodes detour \<and>
   dist_v detour_s3 ! 2 = min_pushed (trace detour_s3) 2 \<and>
   min_pushed (trace detour_s3) 2 = Finite 2 \<and>
   trace detour_s3 = [Push \<lparr> node = 0, g = 0, f = 0 \<rparr>] @ Expand \<lparr> node = 0, g = 0, f = 0 \<rparr> #
       drop 2 (trace detour_s3) \<and>
   Push \<lparr> node = 1, g = 1, f = 1 \<rparr> \<in> set (drop 2 (trace detour_s3)) \<and>
   node \<lparr> node = 1, g = 1, f = 1 \<rparr> \<noteq> node \<lparr> node = 0, g = 0, f = 0 \<rparr> \<and>
   {v. v < numNodes detour \<and> closed_v detour_s3 ! v} =
     set (map node (expanded_of (trace detour_s3))) \<and>
   (\<exists>s'. loop_body list_pq detour zero_heuristic detour_s3 = Continue s' \<and>
      dist_v s' = dist_v detour_s3 \<and> closed_v s' = closed_v detour_s3 \<and>
      nodesExpanded s' = nodesExpanded detour_s3 \<and>
      pushed_of (trace s') = pushed_of (trace detour_s3) \<and>
      mset (open_pq s') = mset (open_pq detour_s3) - {#pq_top list_pq (open_pq detour_s3)#} \<and>
      steps s' = steps detour_s3 + 1 \<and>
      trace s' = trace detour_s3 @ [Stale (pq_top list_pq (open_pq detour_s3))])"
proof -
  have r: "reach list_pq detour zero_heuristic detour_s0 detour_s3"
    using detour_at3 by (rule state_at_reach)
  then have v: "visited list_pq detour zero_heuristic detour_s0 detour_s3"
    by (simp add: visited_def)
  have ne: "\<not> pq_empty list_pq (open_pq detour_s3)" by code_simp
  have st: "exceeds (g (pq_top list_pq (open_pq detour_s3)))
     (dist_v detour_s3 ! node (pq_top list_pq (open_pq detour_s3)))" by code_simp
  have n: "(2::nat) < numNodes detour" by (simp add: detour_def)
  have m: "min_pushed (trace detour_s3) 2 = Finite 2" by code_simp
  have d: "trace detour_s3 = [Push \<lparr> node = 0, g = 0, f = 0 \<rparr>] @ Expand \<lparr> node = 0, g = 0, f = 0 \<rparr> #
       drop 2 (trace detour_s3)" by (simp add: detour_s3_def)
  have p: "Push \<lparr> node = 1, g = 1, f = 1 \<rparr> \<in> set (drop 2 (trace detour_s3))"
    by (simp add: detour_s3_def)
  note c = dist_is_least_pushed[OF list_pq_spec valid_detour zero_heuristic_total detour_init v]
  from c have c1: "dist_v detour_s3 ! 2 = min_pushed (trace detour_s3) 2" using n by blast
  from c d p have c2: "node \<lparr> node = 1, g = 1, f = 1 \<rparr> \<noteq> node \<lparr> node = 0, g = 0, f = 0 \<rparr>"
    by blast
  from c r have c3: "{v. v < numNodes detour \<and> closed_v detour_s3 ! v} =
     set (map node (expanded_of (trace detour_s3)))" by blast
  from c r ne st have c4: "\<exists>s'. loop_body list_pq detour zero_heuristic detour_s3 = Continue s' \<and>
      dist_v s' = dist_v detour_s3 \<and> closed_v s' = closed_v detour_s3 \<and>
      nodesExpanded s' = nodesExpanded detour_s3 \<and>
      pushed_of (trace s') = pushed_of (trace detour_s3) \<and>
      mset (open_pq s') = mset (open_pq detour_s3) - {#pq_top list_pq (open_pq detour_s3)#} \<and>
      steps s' = steps detour_s3 + 1 \<and>
      trace s' = trace detour_s3 @ [Stale (pq_top list_pq (open_pq detour_s3))]" by blast
  from list_pq_spec valid_detour zero_heuristic_total detour_init v r ne st n c1 m d p c2 c3 c4
  show ?thesis by (intro conjI)
qed

text \<open>
  C8, as stated, fails: the number of runs is the constant \<open>NUM_RUNS\<close> of the source and
  no argument of \<open>runAStar\<close> sets it. A harness told to run once would report the one
  clock reading of run 0 as the average time; \<open>runAStar\<close> reports the mean of a hundred.
\<close>

theorem run_count_not_configurable:
  "runAStar list_pq single_node zero_heuristic index_clock =
     Some (Inr \<lparr> avgTimeNs = 99 / 2, avgNodesExpanded = 1, avgSteps = 1,
                 avgTimeMs = 99 / 2000000, minTimeMs = 99 / 2000000, reportedPathCost = 0 \<rparr>) \<and>
   benchmark 1 list_pq single_node zero_heuristic index_clock =
     Some (Inr \<lparr> avgTimeNs = 0, avgNodesExpanded = 1, avgSteps = 1,
                 avgTimeMs = 0, minTimeMs = 0, reportedPathCost = 0 \<rparr>) \<and>
   runAStar list_pq single_node zero_heuristic index_clock \<noteq>
     benchmark 1 list_pq single_node zero_heuristic index_clock"
proof -
  have a: "runAStar list_pq single_node zero_heuristic index_clock =
     Some (Inr \<lparr> avgTimeNs = 99 / 2, avgNodesExpanded = 1, avgSteps = 1,
                 avgTimeMs = 99 / 2000000, minTimeMs = 99 / 2000000, reportedPathCost = 0 \<rparr>)"
    by code_simp
  have b: "benchmark 1 list_pq single_node zero_heuristic index_clock =
     Some (Inr \<lparr> avgTimeNs = 0, avgNodesExpanded = 1, avgSteps = 1,
                 avgTimeMs = 0, minTimeMs = 0, reportedPathCost = 0 \<rparr>)"
    by code_simp
  show ?thesis unfolding a b by simp
qed

text \<open>
  C8, amended. The harness runs the search exactly \<open>NUM_RUNS = 100\<close> times, a constant of
  the source that nothing configures. Let the search return \<open>sf\<close> with path cost \<open>c\<close>, and
  let a hundred times each counter of \<open>sf\<close> fit in an \<^verbatim>\<open>int\<close>. Then \<open>runAStar\<close> is the
  harness of the specification with \<open>runs = 100\<close>. From the accumulators that \<open>run\<close> runs
  have filled, the remaining runs add one clock reading each and the counters of \<open>sf\<close>
  each, and write \<^verbatim>\<open>pathCost\<close> in run 0 and in no other. The report gives the three totals
  divided by 100, the arithmetic means, and the path cost of the first run. What the
  totals hold once they leave the range of \<^verbatim>\<open>int\<close> is not part of the statement.
\<close>

theorem harness_runs_100_times:
  fixes ops :: "'q pq_ops"
  assumes s: "search ops G h = Some (Inr sf)" and c: "pathCost_of G sf = Inr c"
    and ne: "100 * nodesExpanded sf < 2 ^ 31" and st: "100 * steps sf < 2 ^ 31"
    and run: "run \<le> 100"
  shows "NUM_RUNS = 100 \<and>
     runAStar ops G h clock = benchmark 100 ops G h clock \<and>
     runs_from ops G h clock run
         \<lparr> totalNanoseconds = (\<Sum>i = 0..<run. clock i),
           totalNodesExpanded = word_of_nat (run * nodesExpanded sf),
           totalSteps = word_of_nat (run * steps sf), pathCost = pc \<rparr> =
       Some (Inr \<lparr> totalNanoseconds = (\<Sum>i = 0..<100. clock i),
                   totalNodesExpanded = word_of_nat (100 * nodesExpanded sf),
                   totalSteps = word_of_nat (100 * steps sf),
                   pathCost = (if run = 0 then c else pc) \<rparr>) \<and>
     sint (word_of_nat (100 * nodesExpanded sf) :: 32 word) = int (100 * nodesExpanded sf) \<and>
     sint (word_of_nat (100 * steps sf) :: 32 word) = int (100 * steps sf) \<and>
     (\<exists>rep. runAStar ops G h clock = Some (Inr rep) \<and>
        avgTimeNs rep = real_of_int (\<Sum>i = 0..<100. clock i) / 100 \<and>
        avgNodesExpanded rep = real (100 * nodesExpanded sf) / 100 \<and>
        avgSteps rep = real (100 * steps sf) / 100 \<and>
        reportedPathCost rep = c)"
proof -
  have n: "NUM_RUNS = 100" by (simp add: NUM_RUNS_def)
  have 1: "runAStar ops G h clock = benchmark 100 ops G h clock"
    using runAStar_benchmark[OF s c, of clock] ne st unfolding n by simp
  have tm: "(\<Sum>i = 0..<run. clock i) + (\<Sum>i = run..<100. clock i) = (\<Sum>i = 0..<100. clock i)"
    using run by (intro sum.atLeastLessThan_concat) simp_all
  have cnt: "(word_of_nat (run * k) :: 32 word) + word_of_nat ((100 - run) * k)
      = word_of_nat (100 * k)" for k :: nat
  proof -
    have "run * k + (100 - run) * k = 100 * k"
      using run by (simp add: add_mult_distrib[symmetric])
    then show ?thesis by (simp only: of_nat_add[symmetric])
  qed
  have 2: "runs_from ops G h clock run
         \<lparr> totalNanoseconds = (\<Sum>i = 0..<run. clock i),
           totalNodesExpanded = word_of_nat (run * nodesExpanded sf),
           totalSteps = word_of_nat (run * steps sf), pathCost = pc \<rparr> =
       Some (Inr \<lparr> totalNanoseconds = (\<Sum>i = 0..<100. clock i),
                   totalNodesExpanded = word_of_nat (100 * nodesExpanded sf),
                   totalSteps = word_of_nat (100 * steps sf),
                   pathCost = (if run = 0 then c else pc) \<rparr>)"
    unfolding runs_from_eq[OF s c] n by (simp only: Totals.simps tm cnt)
  note 3 = sint_count[OF ne]
  note 4 = sint_count[OF st]
  have 5: "\<exists>rep. runAStar ops G h clock = Some (Inr rep) \<and>
        avgTimeNs rep = real_of_int (\<Sum>i = 0..<100. clock i) / 100 \<and>
        avgNodesExpanded rep = real (100 * nodesExpanded sf) / 100 \<and>
        avgSteps rep = real (100 * steps sf) / 100 \<and>
        reportedPathCost rep = c"
    unfolding runAStar_eq[OF s c] n
    by (simp only: report_def Let_def Totals.simps 3 4 of_int_of_nat_eq n) simp
  from n 1 2 3 4 5 show ?thesis by (intro conjI)
qed

theorem harness_runs_100_times_witness:
  "search list_pq detour zero_heuristic = Some (Inr detour_sf) \<and>
   pathCost_of detour detour_sf = Inr 4 \<and>
   100 * nodesExpanded detour_sf < (2::nat) ^ 31 \<and> 100 * steps detour_sf < (2::nat) ^ 31 \<and>
   (98::nat) \<le> 100 \<and>
   NUM_RUNS = 100 \<and>
   runAStar list_pq detour zero_heuristic index_clock =
     benchmark 100 list_pq detour zero_heuristic index_clock \<and>
   runs_from list_pq detour zero_heuristic index_clock 98
       \<lparr> totalNanoseconds = 4753, totalNodesExpanded = 392, totalSteps = 490, pathCost = 7 \<rparr> =
     Some (Inr \<lparr> totalNanoseconds = 4950, totalNodesExpanded = 400, totalSteps = 500,
                 pathCost = 7 \<rparr>) \<and>
   (\<exists>rep. runAStar list_pq detour zero_heuristic index_clock = Some (Inr rep) \<and>
      avgTimeNs rep = 99 / 2 \<and> avgNodesExpanded rep = 4 \<and> avgSteps rep = 5 \<and>
      reportedPathCost rep = 4)"
proof -
  have v: "nodesExpanded detour_sf = 4" "steps detour_sf = 5"
    by (simp_all add: detour_sf_def detour_s4_def detour_s3_def)
  have h: "100 * nodesExpanded detour_sf < (2::nat) ^ 31" "100 * steps detour_sf < (2::nat) ^ 31"
    "(98::nat) \<le> 100"
    by (simp_all add: v)
  note t = harness_runs_100_times[OF detour_search detour_cost h, of index_clock 7]
  have "(\<Sum>i = 0..<98. index_clock i) = int (\<Sum>i = 0..<98. i)"
    by (simp add: index_clock_def)
  also have "(\<Sum>i = 0..<98. i) = (4753::nat)"
    using Sum_Ico_nat[of 0 98] by simp
  finally have s1: "(\<Sum>i = 0..<98. index_clock i) = 4753" by simp
  have "(\<Sum>i = 0..<100. index_clock i) = int (\<Sum>i = 0..<100. i)"
    by (simp add: index_clock_def)
  also have "(\<Sum>i = 0..<100. i) = (4950::nat)"
    using Sum_Ico_nat[of 0 100] by simp
  finally have s2: "(\<Sum>i = 0..<100. index_clock i) = 4950" by simp
  from t have a: "NUM_RUNS = 100" by (rule conjunct1)
  from t have b: "runAStar list_pq detour zero_heuristic index_clock =
       benchmark 100 list_pq detour zero_heuristic index_clock"
    by (rule conjunct2[THEN conjunct1])
  from t have "runs_from list_pq detour zero_heuristic index_clock 98
         \<lparr> totalNanoseconds = (\<Sum>i = 0..<98. index_clock i),
           totalNodesExpanded = word_of_nat (98 * nodesExpanded detour_sf),
           totalSteps = word_of_nat (98 * steps detour_sf), pathCost = 7 \<rparr> =
       Some (Inr \<lparr> totalNanoseconds = (\<Sum>i = 0..<100. index_clock i),
                   totalNodesExpanded = word_of_nat (100 * nodesExpanded detour_sf),
                   totalSteps = word_of_nat (100 * steps detour_sf),
                   pathCost = (if (98::nat) = 0 then 4 else 7) \<rparr>)"
    by (rule conjunct2[THEN conjunct2, THEN conjunct1])
  then have d: "runs_from list_pq detour zero_heuristic index_clock 98
       \<lparr> totalNanoseconds = 4753, totalNodesExpanded = 392, totalSteps = 490, pathCost = 7 \<rparr> =
     Some (Inr \<lparr> totalNanoseconds = 4950, totalNodesExpanded = 400, totalSteps = 500,
                 pathCost = 7 \<rparr>)"
    unfolding s1 s2 v by (simp del: runs_from.simps)
  from t have "\<exists>rep. runAStar list_pq detour zero_heuristic index_clock = Some (Inr rep) \<and>
        avgTimeNs rep = real_of_int (\<Sum>i = 0..<100. index_clock i) / 100 \<and>
        avgNodesExpanded rep = real (100 * nodesExpanded detour_sf) / 100 \<and>
        avgSteps rep = real (100 * steps detour_sf) / 100 \<and>
        reportedPathCost rep = 4"
    by (rule conjunct2[THEN conjunct2, THEN conjunct2, THEN conjunct2, THEN conjunct2])
  then have e: "\<exists>rep. runAStar list_pq detour zero_heuristic index_clock = Some (Inr rep) \<and>
      avgTimeNs rep = 99 / 2 \<and> avgNodesExpanded rep = 4 \<and> avgSteps rep = 5 \<and>
      reportedPathCost rep = 4"
    unfolding s2 v by simp
  from detour_search detour_cost h a b d e show ?thesis by (intro conjI)
qed

text \<open>
  C9. The figure printed as "Min execution time" is the total time divided by the run
  count (and by \<open>10^6\<close>, in milliseconds); it is equal to the average execution time
  printed in milliseconds, for every value of the accumulators and for every outcome of
  the harness. It is not the least of the measured durations: with a clock that measures
  \<open>i\<close> nanoseconds in run \<open>i\<close> the least duration is 0 and the figure is \<open>99 / 2000000\<close>.
\<close>

theorem min_time_is_average:
  "minTimeMs (report t) = real_of_int (totalNanoseconds t) / real NUM_RUNS / 1000000 \<and>
   minTimeMs (report t) = avgTimeMs (report t) \<and>
   avgTimeMs (report t) = avgTimeNs (report t) / 1000000 \<and>
   map_option (map_sum id minTimeMs) (runAStar ops G h clock) =
     map_option (map_sum id avgTimeMs) (runAStar ops G h clock) \<and>
   map_option (map_sum id minTimeMs) (runAStar list_pq single_node zero_heuristic index_clock) =
     Some (Inr (99 / 2000000)) \<and>
   real_of_int (Min (index_clock ` {0..<NUM_RUNS})) / 1000000 = 0"
proof -
  have 1: "minTimeMs (report t) = real_of_int (totalNanoseconds t) / real NUM_RUNS / 1000000"
    and 2: "minTimeMs (report t) = avgTimeMs (report t)"
    and 3: "avgTimeMs (report t) = avgTimeNs (report t) / 1000000" for t
    by (simp_all add: report_def Let_def)
  have 4: "map_option (map_sum id minTimeMs) (runAStar ops G h clock) =
     map_option (map_sum id avgTimeMs) (runAStar ops G h clock)"
    unfolding runAStar_def
    by (simp add: 2 split: option.splits sum.splits del: runs_from.simps)
  have 5: "map_option (map_sum id minTimeMs)
      (runAStar list_pq single_node zero_heuristic index_clock) = Some (Inr (99 / 2000000))"
    by code_simp
  have "Min (index_clock ` {0..<NUM_RUNS}) = 0"
  proof (rule Min_eqI)
    show "finite (index_clock ` {0..<NUM_RUNS})" by simp
    show "\<And>y. y \<in> index_clock ` {0..<NUM_RUNS} \<Longrightarrow> 0 \<le> y" by (auto simp: index_clock_def)
    show "0 \<in> index_clock ` {0..<NUM_RUNS}"
      by (auto simp: index_clock_def NUM_RUNS_def intro!: image_eqI[of _ _ 0])
  qed
  then have 6: "real_of_int (Min (index_clock ` {0..<NUM_RUNS})) / 1000000 = 0" by simp
  from 1 2 3 4 5 6 show ?thesis by (intro conjI)
qed

text \<open>
  C4. On a valid graph in which no path leads from the start to the goal, the search
  returns with an empty queue; no entry of the goal was ever pushed or expanded, \<^verbatim>\<open>dist\<close>
  of the goal is still infinite, and the path cost read off the final state is \<open>-1\<close>. This
  is a result and not a fault: the harness returns its report, with \<open>-1\<close> as the path
  cost.
\<close>

theorem unreachable_goal_gives_sentinel:
  fixes ops :: "'q pq_ops"
  assumes spec: "pq_spec ops \<alpha> rinv" and vg: "valid_graph G" and ht: "heur_total G h"
    and np: "\<not> (\<exists>p. is_path G (startNode G) p (goalNode G))"
  shows "\<exists>sf. search ops G h = Some (Inr sf) \<and>
      pq_empty ops (open_pq sf) \<and> \<alpha> (open_pq sf) = {#} \<and>
      goalNode G \<notin> set (map node (expanded_of (trace sf))) \<and>
      goalNode G \<notin> set (map node (pushed_of (trace sf))) \<and>
      dist_v sf ! goalNode G = Infinity \<and>
      pathCost_of G sf = Inr (- 1) \<and>
      (\<exists>rep. runAStar ops G h clock = Some (Inr rep) \<and> reportedPathCost rep = - 1)"
proof -
  from spec vg ht obtain s0 :: "'q SearchState" where s0:
    "init_search ops G h = Inr s0" "state_ok \<alpha> rinv G s0"
    "\<alpha> (open_pq s0) = {#\<lparr> node = startNode G, g = 0, f = hval h (startNode G) \<rparr>#}"
    "dist_v s0 = (replicate (numNodes G) Infinity)[startNode G := Finite 0]"
    "closed_v s0 = replicate (numNodes G) False"
    "nodesExpanded s0 = 0" "steps s0 = 0"
    "trace s0 = [Push \<lparr> node = startNode G, g = 0, f = hval h (startNode G) \<rparr>]"
    by (rule init_search_ok)
  have t0: "trace_ok \<alpha> G s0" using s0(3-8) by (rule trace_ok_init)
  from astar_loop_ends[OF spec vg ht s0(2)] obtain sf s' where e:
    "astar_loop ops G h s0 = Some (Inr sf)" "reach ops G h s0 s'"
    "pq_empty ops (open_pq s') \<and> sf = s' \<or>
       \<not> pq_empty ops (open_pq s') \<and> loop_body ops G h s' = Break sf" by blast
  have sr: "search ops G h = Some (Inr sf)" using s0(1) e(1) by (simp add: search_def)
  from trace_ok_reach[OF spec vg ht e(2) s0(2) t0]
  have ok: "state_ok \<alpha> rinv G s'" and t: "trace_ok \<alpha> G s'" by simp_all
  have rq: "rinv (open_pq s')" using ok by (rule state_okD)
  have gl: "goalNode G < numNodes G" using vg by (simp add: valid_graph_def)
  have di: "dist_v s' ! goalNode G = Infinity"
    using unreachable_dist[OF spec vg ht np s0(2,4) e(2)] .
  have em: "pq_empty ops (open_pq s')"
  proof (rule ccontr)
    assume ne: "\<not> pq_empty ops (open_pq s')"
    with e(3) have b: "loop_body ops G h s' = Break sf" by simp
    from spec vg ht ok ne have ns:
        "\<not> exceeds (g (pq_top ops (open_pq s'))) (dist_v s' ! node (pq_top ops (open_pq s')))"
      and gn: "node (pq_top ops (open_pq s')) = goalNode G"
      using b by (cases rule: loop_body_ok; simp)+
    from top_dist[OF spec ok ne ns] gn di show False by simp
  qed
  with e(3) have sf: "sf = s'" by simp
  have 1: "\<alpha> (open_pq sf) = {#}" using pq_spec_empty[OF spec rq] em by (simp add: sf)
  have 2: "goalNode G \<notin> set (map node (expanded_of (trace sf)))"
    using trace_okD(5)[OF t] state_okD(8)[OF ok] unfolding sf by blast
  have "min_pushed (trace s') (goalNode G) = Infinity"
    using trace_okD(6)[OF t gl] di by simp
  then have 3: "goalNode G \<notin> set (map node (pushed_of (trace sf)))"
    unfolding sf by (rule min_pushed_Infinity)
  have "goalNode G < length (dist_v sf)" using gl state_okD(2)[OF ok] by (simp add: sf)
  with di have 4: "pathCost_of G sf = Inr (- 1)" by (simp add: pathCost_of_def sf)
  have 5: "\<exists>rep. runAStar ops G h clock = Some (Inr rep) \<and> reportedPathCost rep = - 1"
    unfolding runAStar_eq[OF sr 4] by (simp add: report_def)
  from sr em 1 2 3 di 4 5 show ?thesis unfolding sf by blast
qed

theorem unreachable_goal_gives_sentinel_witness:
  "pq_spec list_pq mset (\<lambda>q. sorted (map f q)) \<and> valid_graph disconnected_pair \<and>
   heur_total disconnected_pair (heuristic disconnected_pair) \<and>
   \<not> (\<exists>p. is_path disconnected_pair (startNode disconnected_pair) p
          (goalNode disconnected_pair)) \<and>
   (\<exists>sf. search list_pq disconnected_pair (heuristic disconnected_pair) = Some (Inr sf) \<and>
      pq_empty list_pq (open_pq sf) \<and> mset (open_pq sf) = {#} \<and>
      goalNode disconnected_pair \<notin> set (map node (expanded_of (trace sf))) \<and>
      goalNode disconnected_pair \<notin> set (map node (pushed_of (trace sf))) \<and>
      dist_v sf ! goalNode disconnected_pair = Infinity \<and>
      pathCost_of disconnected_pair sf = Inr (- 1) \<and>
      (\<exists>rep. runAStar list_pq disconnected_pair (heuristic disconnected_pair) index_clock
           = Some (Inr rep) \<and> reportedPathCost rep = - 1))"
  using unreachable_goal_gives_sentinel[OF list_pq_spec valid_disconnected_pair
      heuristic_total[OF valid_disconnected_pair] pair_no_path, of index_clock]
    list_pq_spec valid_disconnected_pair heuristic_total[OF valid_disconnected_pair] pair_no_path
  by (intro conjI)




end
